theory Spec2Isabelle
  imports Complex_Main "HOL-Library.Word" "HOL-Library.Signed_Division"
begin

section \<open>The spectrogram core of spectrogram\_lines.cpp\<close>

text \<open>
  The C++ program keeps its state in global variables. Each group of globals that one
  component owns is a record here, and each function takes the globals it reads and
  returns the ones it writes.

  Numbers. \<^verbatim>\<open>int64_t\<close> and \<^verbatim>\<open>size_t\<close> are \<open>64 word\<close>: the same 64 bits,
  read by \<open>sint\<close> where the C++ type is signed and by \<open>uint\<close> where it is
  unsigned, so that a cast between the two is the identity on the word. Signed arithmetic
  on words is two's complement. A C++ \<^verbatim>\<open>int\<close> is an \<open>int\<close>, with the
  wrap into 32 bits (\<open>int32\<close>) written at the additions that could leave the range.
  \<^verbatim>\<open>float\<close> and \<^verbatim>\<open>double\<close> values are real numbers: rounding is not
  modelled. Where a function only moves samples around, the sample type is a type variable.
\<close>

subsection \<open>Helper functions\<close>

definition int32 :: "int \<Rightarrow> int" where
  "int32 k = signed_take_bit 31 k"

definition clamp01 :: "real \<Rightarrow> real" where
  "clamp01 v = max 0 (min 1 v)"

definition clampf :: "real \<Rightarrow> real \<Rightarrow> real \<Rightarrow> real" where
  "clampf v lo hi = max lo (min hi v)"

text \<open>
  \<^verbatim>\<open>wrapIndex(int64_t idx, size_t size)\<close>. The operator \<^verbatim>\<open>%\<close> of C++
  truncates towards zero, which is \<open>smod\<close> on the signed readings.
\<close>

definition wrapIndex :: "64 word \<Rightarrow> 64 word \<Rightarrow> 64 word" where
  "wrapIndex idx sz =
     (if sz = 0 then 0
      else let m = (word_of_int (sint idx smod sint sz) :: 64 word)
           in if m <s 0 then m + sz else m)"

subsection \<open>The sample source\<close>

record 'a WAVFile =
  audioData :: "'a list"
  sampleRate :: nat
  sourceChannels :: nat
  numChannels :: nat
  bitsPerSample :: nat

text \<open>
  What libsndfile answers for a file name: \<^verbatim>\<open>sf_open\<close> gives no handle, or it gives
  one together with the header (\<^verbatim>\<open>SF_INFO\<close>), and then \<^verbatim>\<open>sf_readf_float\<close>
  gives a frame count and the interleaved samples it read.
\<close>

record SF_INFO =
  frames :: int
  samplerate :: int
  channels :: int

datatype 'a sndfile = SF_NULL | SF_FILE SF_INFO int "'a list"

text \<open>One mono sample of \<^verbatim>\<open>load\<close>: the mean of frame \<open>i\<close> over the source channels.\<close>

definition downmix :: "'a::field list \<Rightarrow> nat \<Rightarrow> nat \<Rightarrow> 'a" where
  "downmix buffer sc i =
     foldl (\<lambda>sum ch. sum + buffer ! (i * sc + ch)) 0 [0..<sc] / of_nat sc"

text \<open>
  \<^verbatim>\<open>WAVFile::load\<close>. The result is the returned flag and the object after the call.
  The casts \<^verbatim>\<open>(uint32_t)\<close> and \<^verbatim>\<open>(uint16_t)\<close> are the reductions modulo
  \<open>2 ^ 32\<close> and \<open>2 ^ 16\<close>.
\<close>

definition load :: "'a::field sndfile \<Rightarrow> 'a WAVFile \<Rightarrow> bool \<times> 'a WAVFile" where
  "load sndfile w =
     (case sndfile of
        SF_NULL \<Rightarrow> (False, w)
      | SF_FILE sfinfo framesRead buffer \<Rightarrow>
          let w1 = w\<lparr>sampleRate := nat (samplerate sfinfo mod 2 ^ 32),
                     sourceChannels := nat (channels sfinfo mod 2 ^ 16),
                     numChannels := 1\<rparr>
          in if framesRead \<le> 0 then (False, w1)
             else (True, w1\<lparr>audioData :=
                     map (downmix buffer (sourceChannels w1)) [0..<nat framesRead]\<rparr>))"

subsection \<open>The playback clock and the audio callback\<close>

record 'a audio =
  wavFile :: "'a WAVFile"
  playbackPosition :: "64 word"
  isPaused :: bool
  isPlaying :: bool
  audioStream :: bool
  loopAudio :: bool
  volume :: 'a
  gOutputChannels :: int
  gLatencySamplesBase :: int
  gLatencyAdjust :: int

definition FRAMES_PER_BUFFER :: int where
  "FRAMES_PER_BUFFER = 256"

definition outCh :: "'a audio \<Rightarrow> nat" where
  "outCh a = nat (max 1 (gOutputChannels a))"

text \<open>
  One iteration of the frame loop of \<^verbatim>\<open>audioCallback\<close>: the samples written for
  the frame, in channel order, and the local \<^verbatim>\<open>pos\<close> afterwards.
\<close>

definition audioFrame :: "'a::{zero,times} audio \<Rightarrow> 64 word \<Rightarrow> 'a list \<times> 64 word" where
  "audioFrame a pos =
     (let N = length (audioData (wavFile a)) in
      if isPaused a \<or> N = 0 then (replicate (outCh a) 0, pos)
      else if unat pos < N then
        (replicate (outCh a) (audioData (wavFile a) ! unat pos * volume a), pos + 1)
      else if loopAudio a then
        (replicate (outCh a) (audioData (wavFile a) ! 0 * volume a), 0 + 1)
      else (replicate (outCh a) 0, pos))"

fun audioFrames :: "'a::{zero,times} audio \<Rightarrow> nat \<Rightarrow> 64 word \<Rightarrow> 'a list \<times> 64 word" where
  "audioFrames a 0 pos = ([], pos)"
| "audioFrames a (Suc n) pos =
     (let (s, pos') = audioFrame a pos;
          (rest, pos'') = audioFrames a n pos'
      in (s @ rest, pos''))"

text \<open>
  \<^verbatim>\<open>audioCallback\<close>: the output buffer, which the loop fills from index 0 upwards
  without a gap, and the globals after the final store of the position.
\<close>

definition audioCallback :: "'a::{zero,times} audio \<Rightarrow> nat \<Rightarrow> 'a list \<times> 'a audio" where
  "audioCallback a framesPerBuffer =
     (let (out, pos) = audioFrames a framesPerBuffer (playbackPosition a)
      in (out, a\<lparr>playbackPosition := pos\<rparr>))"

text \<open>
  \<^verbatim>\<open>startAudio\<close>. PortAudio's part is a parameter: the stream does not open, or
  opens and does not start, or starts and reports a latency, which the program rounds to
  the sample count \<^verbatim>\<open>outLatencySamples\<close>.
\<close>

datatype pa_outcome = PaOpenFailed | PaStartFailed | PaStarted int

definition startAudio :: "pa_outcome \<Rightarrow> 'a audio \<Rightarrow> 'a audio" where
  "startAudio pa a =
     (if audioData (wavFile a) = [] then a
      else if audioStream a then a
      else let a1 = a\<lparr>gOutputChannels := (if sourceChannels (wavFile a) \<ge> 2 then 2 else 1)\<rparr>
           in case pa of
                PaOpenFailed \<Rightarrow> a1
              | PaStartFailed \<Rightarrow> a1\<lparr>audioStream := True\<rparr>
              | PaStarted outLatencySamples \<Rightarrow>
                  a1\<lparr>audioStream := True, isPlaying := True, isPaused := False,
                     gLatencySamplesBase := int32 (outLatencySamples + FRAMES_PER_BUFFER)\<rparr>)"

subsection \<open>The spectral analyzer: choice of the analysis window\<close>

definition playHeadEstimate :: "'a audio \<Rightarrow> int \<Rightarrow> 64 word" where
  "playHeadEstimate a FFT_SIZE =
     (let writeHead = playbackPosition a;
          latencySamples = (word_of_int (int32 (gLatencySamplesBase a + gLatencyAdjust a)) :: 64 word);
          fftWindowCenter = (word_of_int (FFT_SIZE sdiv 2) :: 64 word)
      in writeHead - latencySamples - fftWindowCenter)"

definition windowStart :: "'a audio \<Rightarrow> int \<Rightarrow> 64 word" where
  "windowStart a FFT_SIZE =
     wrapIndex (playHeadEstimate a FFT_SIZE) (of_nat (length (audioData (wavFile a))))"

definition hann :: "int \<Rightarrow> nat \<Rightarrow> real" where
  "hann FFT_SIZE i = 0.5 * (1 - cos (2 * pi * real i / real_of_int (FFT_SIZE - 1)))"

text \<open>
  \<^verbatim>\<open>processAudioFrameSynced\<close> up to the call of the transform: the content of
  \<^verbatim>\<open>fftInput\<close>, or \<open>None\<close> when the function returns at once because no audio
  is loaded. \<^verbatim>\<open>FFT_SIZE\<close> is only ever one of 512, 1024, ..., 16384.
\<close>

definition processAudioFrameSynced :: "real audio \<Rightarrow> int \<Rightarrow> real list option" where
  "processAudioFrameSynced a FFT_SIZE =
     (if audioData (wavFile a) = [] then None
      else let N = (of_nat (length (audioData (wavFile a))) :: 64 word) in
        if N < word_of_int FFT_SIZE then
          Some (map (\<lambda>i. if i < length (audioData (wavFile a))
                          then audioData (wavFile a) ! i * hann FFT_SIZE i else 0)
                    [0..<nat FFT_SIZE])
        else
          let start = windowStart a FFT_SIZE in
          Some (map (\<lambda>i. audioData (wavFile a) ! unat ((start + of_nat i) mod N) * hann FFT_SIZE i)
                    [0..<nat FFT_SIZE]))"

subsection \<open>The frequency mapper\<close>

definition MIN_FREQ :: real where
  "MIN_FREQ = 20"

definition X_SPAN :: real where
  "X_SPAN = 2.6 * 2"

definition getNumFrequencies :: "int \<Rightarrow> int" where
  "getNumFrequencies FFT_SIZE = FFT_SIZE sdiv 2"

record bars =
  gBarBinF :: "real list"
  gBarX :: "real list"
  gBarHue :: "real list"

definition barT :: "nat \<Rightarrow> nat \<Rightarrow> real" where
  "barT nbars i = (if nbars = 1 then 0 else real i / real (nbars - 1))"

text \<open>
  \<^verbatim>\<open>buildFrequencyMapping\<close>. Before the loop, the constant \<^verbatim>\<open>ratio\<close>; in the loop
  body for bar \<open>i\<close>, the first value of \<^verbatim>\<open>binF\<close> and the clamped one that is stored
  into \<^verbatim>\<open>gBarBinF[i]\<close>. \<^verbatim>\<open>std::pow\<close> with a positive base is \<open>powr\<close>.
\<close>

definition freqRatio :: "nat \<Rightarrow> real" where
  "freqRatio rate =
     (let sr = real rate;
          maxFreq = sr * 0.5;
          minF = max MIN_FREQ 1;
          maxF = max (minF * 1.001) maxFreq
      in maxF / minF)"

definition barBinRaw :: "nat \<Rightarrow> int \<Rightarrow> nat \<Rightarrow> nat \<Rightarrow> real" where
  "barBinRaw rate FFT_SIZE nbars i =
     (let sr = real rate;
          minF = max MIN_FREQ 1;
          ratio = freqRatio rate;
          t = barT nbars i;
          freq = minF * (ratio powr t)
      in freq * real_of_int FFT_SIZE / sr)"

definition barBinF :: "nat \<Rightarrow> int \<Rightarrow> nat \<Rightarrow> nat \<Rightarrow> real" where
  "barBinF rate FFT_SIZE nbars i =
     (let binF = barBinRaw rate FFT_SIZE nbars i
      in max 1 (min binF (real_of_int (getNumFrequencies FFT_SIZE - 2))))"

definition buildFrequencyMapping :: "nat \<Rightarrow> int \<Rightarrow> nat \<Rightarrow> bars" where
  "buildFrequencyMapping rate FFT_SIZE nbars =
     \<lparr>gBarBinF = map (barBinF rate FFT_SIZE nbars) [0..<nbars],
      gBarX = map (\<lambda>i. (- X_SPAN * 0.5) + barT nbars i * X_SPAN) [0..<nbars],
      gBarHue = map (\<lambda>i. barT nbars i * 0.66) [0..<nbars]\<rparr>"

subsection \<open>The line builder\<close>






subsection \<open>The history ring\<close>

definition MAX_HISTORY_LINES :: nat where
  "MAX_HISTORY_LINES = 560"

record 'a history =
  lineHistory :: "'a list"
  currentLine :: "'a list"
  historyFillCount :: int
  HISTORY_LINES :: int
  NUM_BARS :: nat

text \<open>
  \<^verbatim>\<open>memmove\<close> inside one buffer and \<^verbatim>\<open>memcpy\<close> into it, counted in elements;
  a range that leaves its buffer is \<open>None\<close>.
\<close>

definition memmove :: "'a list \<Rightarrow> nat \<Rightarrow> nat \<Rightarrow> nat \<Rightarrow> 'a list option" where
  "memmove buf dst src n =
     (if src + n \<le> length buf \<and> dst + n \<le> length buf
      then Some (take dst buf @ take n (drop src buf) @ drop (dst + n) buf)
      else None)"

definition memcpy :: "'a list \<Rightarrow> nat \<Rightarrow> 'a list \<Rightarrow> nat \<Rightarrow> 'a list option" where
  "memcpy buf dst from n =
     (if n \<le> length from \<and> dst + n \<le> length buf
      then Some (take dst buf @ take n from @ drop (dst + n) buf)
      else None)"

text \<open>
  \<^verbatim>\<open>pushLineToHistory\<close>. The byte count of the move is
  \<^verbatim>\<open>sizeof(float) * (HISTORY_LINES - 1) * NUM_BARS\<close> in \<^verbatim>\<open>size_t\<close>; with
  \<^verbatim>\<open>HISTORY_LINES\<close> below 1 the factor wraps to a huge count and the move leaves
  the vector.
\<close>

definition pushLineToHistory :: "'a history \<Rightarrow> 'a history option" where
  "pushLineToHistory h =
     (if HISTORY_LINES h < 1 then None
      else case memmove (lineHistory h) (NUM_BARS h) 0 (nat (HISTORY_LINES h - 1) * NUM_BARS h) of
        None \<Rightarrow> None
      | Some moved \<Rightarrow>
          (case memcpy moved 0 (currentLine h) (NUM_BARS h) of
             None \<Rightarrow> None
           | Some copied \<Rightarrow>
               Some (h\<lparr>lineHistory := copied,
                       historyFillCount :=
                         (if historyFillCount h < HISTORY_LINES h
                          then historyFillCount h + 1 else historyFillCount h)\<rparr>)))"

text \<open>
  One analysis cycle of the main loop, as far as the ring sees it: \<^verbatim>\<open>buildCurrentLine\<close>
  has produced \<open>line\<close> in \<^verbatim>\<open>currentLine\<close>, then \<^verbatim>\<open>pushLineToHistory\<close> runs.
\<close>

definition push :: "'a list \<Rightarrow> 'a history \<Rightarrow> 'a history option" where
  "push line h = pushLineToHistory (h\<lparr>currentLine := line\<rparr>)"

fun pushes :: "'a list list \<Rightarrow> 'a history \<Rightarrow> 'a history option" where
  "pushes [] h = Some h"
| "pushes (line # lines) h =
     (case push line h of None \<Rightarrow> None | Some h' \<Rightarrow> pushes lines h')"

text \<open>The history part of the button "Clear Visualization".\<close>

definition clearVisualization :: "'a::zero history \<Rightarrow> 'a history" where
  "clearVisualization h =
     h\<lparr>lineHistory := replicate (length (lineHistory h)) 0,
       currentLine := replicate (length (currentLine h)) 0,
       historyFillCount := 0\<rparr>"

text \<open>
  The input field "lines" of the 3D view: the typed number \<open>v\<close> is already in
  \<^verbatim>\<open>HISTORY_LINES\<close> and is clamped through \<^verbatim>\<open>float\<close>. The conversion of an
  \<^verbatim>\<open>int\<close> to \<^verbatim>\<open>float\<close> is monotone and exact on 10 ... 560, so the clamp of
  the real number gives the same result.
\<close>

definition setHistoryLines :: "int \<Rightarrow> 'a history \<Rightarrow> 'a history" where
  "setHistoryLines v h =
     h\<lparr>HISTORY_LINES := \<lfloor>clampf (real_of_int v) 10 (real MAX_HISTORY_LINES)\<rfloor>\<rparr>"

text \<open>Row \<open>k\<close> of the ring: the \<^verbatim>\<open>NUM_BARS\<close> values from index \<open>k * NUM_BARS\<close>.\<close>

definition row :: "'a history \<Rightarrow> nat \<Rightarrow> 'a list" where
  "row h k = take (NUM_BARS h) (drop (k * NUM_BARS h) (lineHistory h))"

text \<open>The globals as the program initialises them, for \<^verbatim>\<open>NUM_BARS\<close> bars.\<close>

definition initHistory :: "nat \<Rightarrow> 'a::zero history" where
  "initHistory n =
     \<lparr>lineHistory = replicate (MAX_HISTORY_LINES * n) 0,
      currentLine = replicate n 0,
      historyFillCount = 0,
      HISTORY_LINES = 140,
      NUM_BARS = n\<rparr>"

text \<open>
  The states of the ring that the program reaches: from the initial one by analysis
  cycles, clears and edits of the depth.
\<close>

inductive reachable :: "nat \<Rightarrow> 'a::zero history \<Rightarrow> bool" for n :: nat where
  r_init: "reachable n (initHistory n)"
| r_push: "reachable n h \<Longrightarrow> length line = n \<Longrightarrow> push line h = Some h' \<Longrightarrow> reachable n h'"
| r_clear: "reachable n h \<Longrightarrow> reachable n (clearVisualization h)"
| r_depth: "reachable n h \<Longrightarrow> reachable n (setHistoryLines v h)"

text \<open>The sizes that the vectors keep and the bounds of the depth.\<close>

definition wf_history :: "'a history \<Rightarrow> bool" where
  "wf_history h \<longleftrightarrow>
     length (lineHistory h) = MAX_HISTORY_LINES * NUM_BARS h \<and>
     length (currentLine h) = NUM_BARS h \<and>
     1 \<le> HISTORY_LINES h \<and> HISTORY_LINES h \<le> int MAX_HISTORY_LINES"

subsection \<open>The color mapper\<close>

record ColormapPoint =
  position :: real
  red :: real
  green :: real
  blue :: real

type_synonym rgb = "real \<times> real \<times> real"

definition pt :: "real \<Rightarrow> real \<Rightarrow> real \<Rightarrow> real \<Rightarrow> ColormapPoint" where
  "pt p x y z = \<lparr>position = p, red = x, green = y, blue = z\<rparr>"

definition rgbOf :: "ColormapPoint \<Rightarrow> rgb" where
  "rgbOf p = (red p, green p, blue p)"

text \<open>
  \<^verbatim>\<open>getColormapColor\<close>. The three reference parameters are the last argument and
  the result; when the loop ends without a match they keep their values.
\<close>

definition getColormapColor :: "ColormapPoint list \<Rightarrow> nat \<Rightarrow> real \<Rightarrow> rgb \<Rightarrow> rgb" where
  "getColormapColor points numPoints v0 out =
     (let v = clamp01 v0 in
      if v \<le> position (points ! 0) then rgbOf (points ! 0)
      else if v \<ge> position (points ! (numPoints - 1)) then rgbOf (points ! (numPoints - 1))
      else case find (\<lambda>i. v \<ge> position (points ! i) \<and> v \<le> position (points ! (i + 1)))
                     [0..<numPoints - 1] of
             None \<Rightarrow> out
           | Some i \<Rightarrow>
               let t = (v - position (points ! i)) /
                       (position (points ! (i + 1)) - position (points ! i))
               in (red (points ! i) + t * (red (points ! (i + 1)) - red (points ! i)),
                   green (points ! i) + t * (green (points ! (i + 1)) - green (points ! i)),
                   blue (points ! i) + t * (blue (points ! (i + 1)) - blue (points ! i))))"

definition viridisMap :: "ColormapPoint list" where
  "viridisMap = [pt 0.0 0.267 0.005 0.329, pt 0.25 0.283 0.141 0.458,
     pt 0.5 0.128 0.567 0.551, pt 0.75 0.369 0.788 0.383, pt 1.0 0.993 0.906 0.144]"

definition plasmaMap :: "ColormapPoint list" where
  "plasmaMap = [pt 0.0 0.051 0.029 0.528, pt 0.25 0.507 0.006 0.658,
     pt 0.5 0.849 0.203 0.478, pt 0.75 0.966 0.544 0.235, pt 1.0 0.940 0.976 0.131]"

definition infernoMap :: "ColormapPoint list" where
  "infernoMap = [pt 0.0 0.001 0.000 0.014, pt 0.25 0.258 0.039 0.407,
     pt 0.5 0.610 0.157 0.379, pt 0.75 0.941 0.459 0.153, pt 1.0 0.988 0.998 0.645]"

definition magmaMap :: "ColormapPoint list" where
  "magmaMap = [pt 0.0 0.001 0.000 0.014, pt 0.25 0.282 0.088 0.472,
     pt 0.5 0.717 0.215 0.475, pt 0.75 0.989 0.527 0.384, pt 1.0 0.987 0.991 0.750]"

definition hotMap :: "ColormapPoint list" where
  "hotMap = [pt 0.0 0.0 0.0 0.0, pt 0.375 1.0 0.0 0.0, pt 0.75 1.0 1.0 0.0, pt 1.0 1.0 1.0 1.0]"

definition coolMap :: "ColormapPoint list" where
  "coolMap = [pt 0.0 0.0 1.0 1.0, pt 0.5 0.5 0.5 1.0, pt 1.0 1.0 0.0 1.0]"

definition jetMap :: "ColormapPoint list" where
  "jetMap = [pt 0.0 0.0 0.0 0.5, pt 0.125 0.0 0.0 1.0, pt 0.375 0.0 1.0 1.0,
     pt 0.625 1.0 1.0 0.0, pt 0.875 1.0 0.0 0.0, pt 1.0 0.5 0.0 0.0]"

definition turboMap :: "ColormapPoint list" where
  "turboMap = [pt 0.0 0.19 0.07 0.23, pt 0.13 0.09 0.44 0.71, pt 0.25 0.11 0.64 0.85,
     pt 0.38 0.25 0.83 0.78, pt 0.50 0.52 0.90 0.52, pt 0.63 0.83 0.89 0.21,
     pt 0.75 0.99 0.72 0.15, pt 0.88 0.99 0.38 0.12, pt 1.0 0.90 0.15 0.12]"

definition oceanMap :: "ColormapPoint list" where
  "oceanMap = [pt 0.0 0.0 0.5 0.0, pt 0.5 0.0 0.5 1.0, pt 1.0 1.0 1.0 1.0]"

definition rainbowMap :: "ColormapPoint list" where
  "rainbowMap = [pt 0.0 0.5 0.0 1.0, pt 0.16 0.0 0.0 1.0, pt 0.33 0.0 1.0 1.0,
     pt 0.50 0.0 1.0 0.0, pt 0.66 1.0 1.0 0.0, pt 0.83 1.0 0.5 0.0, pt 1.0 1.0 0.0 0.0]"

definition grayscaleMap :: "ColormapPoint list" where
  "grayscaleMap = [pt 0.0 0.0 0.0 0.0, pt 1.0 1.0 1.0 1.0]"

definition iceMap :: "ColormapPoint list" where
  "iceMap = [pt 0.0 0.0 0.0 0.2, pt 0.5 0.0 0.5 1.0, pt 1.0 1.0 1.0 1.0]"

definition fireMap :: "ColormapPoint list" where
  "fireMap = [pt 0.0 0.0 0.0 0.0, pt 0.33 0.5 0.0 0.0, pt 0.66 1.0 0.5 0.0, pt 1.0 1.0 1.0 0.5]"

definition seismicMap :: "ColormapPoint list" where
  "seismicMap = [pt 0.0 0.0 0.0 0.3, pt 0.25 0.0 0.0 1.0, pt 0.5 1.0 1.0 1.0,
     pt 0.75 1.0 0.0 0.0, pt 1.0 0.5 0.0 0.0]"

definition twilightMap :: "ColormapPoint list" where
  "twilightMap = [pt 0.0 0.886 0.859 0.937, pt 0.25 0.329 0.153 0.533,
     pt 0.5 0.051 0.039 0.090, pt 0.75 0.345 0.537 0.686, pt 1.0 0.886 0.859 0.937]"

definition cividisMap :: "ColormapPoint list" where
  "cividisMap = [pt 0.0 0.0 0.135 0.304, pt 0.25 0.184 0.310 0.424,
     pt 0.5 0.467 0.479 0.408, pt 0.75 0.796 0.674 0.424, pt 1.0 0.992 0.906 0.574]"

datatype ColormapType =
    COLORMAP_VIRIDIS | COLORMAP_PLASMA | COLORMAP_INFERNO | COLORMAP_MAGMA
  | COLORMAP_HOT | COLORMAP_COOL | COLORMAP_JET | COLORMAP_TURBO
  | COLORMAP_OCEAN | COLORMAP_RAINBOW | COLORMAP_GRAYSCALE | COLORMAP_ICE
  | COLORMAP_FIRE | COLORMAP_SEISMIC | COLORMAP_TWILIGHT | COLORMAP_CIVIDIS

text \<open>\<^verbatim>\<open>getCurrentColormapColor\<close>, with the global \<^verbatim>\<open>currentColormap\<close> as an argument.\<close>

fun getCurrentColormapColor :: "ColormapType \<Rightarrow> real \<Rightarrow> rgb \<Rightarrow> rgb" where
  "getCurrentColormapColor COLORMAP_VIRIDIS v out = getColormapColor viridisMap 5 v out"
| "getCurrentColormapColor COLORMAP_PLASMA v out = getColormapColor plasmaMap 5 v out"
| "getCurrentColormapColor COLORMAP_INFERNO v out = getColormapColor infernoMap 5 v out"
| "getCurrentColormapColor COLORMAP_MAGMA v out = getColormapColor magmaMap 5 v out"
| "getCurrentColormapColor COLORMAP_HOT v out = getColormapColor hotMap 4 v out"
| "getCurrentColormapColor COLORMAP_COOL v out = getColormapColor coolMap 3 v out"
| "getCurrentColormapColor COLORMAP_JET v out = getColormapColor jetMap 6 v out"
| "getCurrentColormapColor COLORMAP_TURBO v out = getColormapColor turboMap 9 v out"
| "getCurrentColormapColor COLORMAP_OCEAN v out = getColormapColor oceanMap 3 v out"
| "getCurrentColormapColor COLORMAP_RAINBOW v out = getColormapColor rainbowMap 7 v out"
| "getCurrentColormapColor COLORMAP_GRAYSCALE v out = getColormapColor grayscaleMap 2 v out"
| "getCurrentColormapColor COLORMAP_ICE v out = getColormapColor iceMap 3 v out"
| "getCurrentColormapColor COLORMAP_FIRE v out = getColormapColor fireMap 4 v out"
| "getCurrentColormapColor COLORMAP_SEISMIC v out = getColormapColor seismicMap 5 v out"
| "getCurrentColormapColor COLORMAP_TWILIGHT v out = getColormapColor twilightMap 5 v out"
| "getCurrentColormapColor COLORMAP_CIVIDIS v out = getColormapColor cividisMap 5 v out"

text \<open>The control points of a colormap, to name its first and its last one.\<close>

fun controlPoints :: "ColormapType \<Rightarrow> ColormapPoint list" where
  "controlPoints COLORMAP_VIRIDIS = viridisMap"
| "controlPoints COLORMAP_PLASMA = plasmaMap"
| "controlPoints COLORMAP_INFERNO = infernoMap"
| "controlPoints COLORMAP_MAGMA = magmaMap"
| "controlPoints COLORMAP_HOT = hotMap"
| "controlPoints COLORMAP_COOL = coolMap"
| "controlPoints COLORMAP_JET = jetMap"
| "controlPoints COLORMAP_TURBO = turboMap"
| "controlPoints COLORMAP_OCEAN = oceanMap"
| "controlPoints COLORMAP_RAINBOW = rainbowMap"
| "controlPoints COLORMAP_GRAYSCALE = grayscaleMap"
| "controlPoints COLORMAP_ICE = iceMap"
| "controlPoints COLORMAP_FIRE = fireMap"
| "controlPoints COLORMAP_SEISMIC = seismicMap"
| "controlPoints COLORMAP_TWILIGHT = twilightMap"
| "controlPoints COLORMAP_CIVIDIS = cividisMap"

subsection \<open>Concrete states used as examples\<close>

definition demoAudio :: "int audio" where
  "demoAudio =
     \<lparr>wavFile = \<lparr>audioData = [10, 20, 30], sampleRate = 44100, sourceChannels = 2,
                 numChannels = 1, bitsPerSample = 16\<rparr>,
      playbackPosition = 1, isPaused = False, isPlaying = True, audioStream = True,
      loopAudio = True, volume = 2, gOutputChannels = 2,
      gLatencySamplesBase = 0, gLatencyAdjust = 0\<rparr>"

definition demoHistory :: "int history" where
  "demoHistory =
     \<lparr>lineHistory = replicate (MAX_HISTORY_LINES * 2) 0, currentLine = [0, 0],
      historyFillCount = 0, HISTORY_LINES = 10, NUM_BARS = 2\<rparr>"

definition demoLines :: "int list list" where
  "demoLines = [[1, 0], [2, 0], [3, 0], [4, 0], [5, 0], [6, 0], [7, 0], [8, 0], [9, 0],
                [10, 0], [11, 0]]"

definition demoWav :: "real WAVFile" where
  "demoWav = \<lparr>audioData = [0.5, 0.25], sampleRate = 44100, sourceChannels = 1,
              numChannels = 1, bitsPerSample = 16\<rparr>"

definition emptyStereoFile :: "real sndfile" where
  "emptyStereoFile = SF_FILE \<lparr>frames = 0, samplerate = 48000, channels = 2\<rparr> 0 []"

definition demoAnalysis :: "real audio" where
  "demoAnalysis =
     \<lparr>wavFile = \<lparr>audioData = replicate 10000 (1 / 2), sampleRate = 44100, sourceChannels = 1,
                 numChannels = 1, bitsPerSample = 16\<rparr>,
      playbackPosition = 1000, isPaused = False, isPlaying = False, audioStream = False,
      loopAudio = True, volume = 1, gOutputChannels = 1,
      gLatencySamplesBase = 697, gLatencyAdjust = 0\<rparr>"

subsection \<open>Facts about 64-bit words\<close>

lemma wrap_int:
  fixes I S :: int
  assumes "0 < S"
  shows "(if I smod S < 0 then I smod S + S else I smod S) = I mod S"
proof -
  have nn: "0 \<le> I mod S" using assms by simp
  show ?thesis
  proof (cases "sgn I \<noteq> sgn S \<and> \<not> S dvd I")
    case True
    then have "I smod S = I mod S - S"
      by (simp add: signed_modulo_int_eq_modulo_int)
    moreover have "I mod S < S" using assms by simp
    ultimately show ?thesis by simp
  next
    case False
    then have "I smod S = I mod S"
      by (simp add: signed_modulo_int_eq_modulo_int)
    with nn show ?thesis by simp
  qed
qed

lemma sint_small:
  fixes k :: int
  assumes "- (2 ^ 63) \<le> k" "k < 2 ^ 63"
  shows "sint (word_of_int k :: 64 word) = k"
  using assms by (simp add: sint_sbintrunc' signed_take_bit_int_eq_self)

lemma uint_small:
  fixes k :: int
  assumes "0 \<le> k" "k < 2 ^ 64"
  shows "uint (word_of_int k :: 64 word) = k"
  using assms by (simp add: uint_word_of_int)

lemma sint_cases64:
  fixes sz :: "64 word"
  shows "sint sz = uint sz \<and> uint sz < 2 ^ 63 \<or> sint sz = uint sz - 2 ^ 64 \<and> 2 ^ 63 \<le> uint sz"
proof (cases "uint sz < 2 ^ 63")
  case True
  have "- (2 ^ 63) \<le> (0::int)" by simp
  also have "0 \<le> uint sz" by simp
  finally have "- (2 ^ 63) \<le> uint sz" .
  with True have "sint sz = uint sz"
    by (simp add: sint_uint signed_take_bit_int_eq_self)
  with True show ?thesis by simp
next
  case False
  have lt: "uint sz < 2 ^ 64" using uint_lt2p [of sz] by simp
  have a: "sint (word_of_int (uint sz - 2 ^ 64) :: 64 word) = uint sz - 2 ^ 64"
    using False lt by (intro sint_small) simp_all
  have b: "(word_of_int (uint sz - 2 ^ 64) :: 64 word) = word_of_int (uint sz)"
    unfolding word_of_int_eq_iff take_bit_eq_mod
    using minus_mod_self2 [of "uint sz" "2 ^ 64"] by simp
  have "sint sz = uint sz - 2 ^ 64"
    using a unfolding b by simp
  with False show ?thesis by simp
qed

lemma abs_sint_le_uint:
  fixes sz :: "64 word"
  assumes "sz \<noteq> 0"
  shows "\<bar>sint sz\<bar> \<le> uint sz" "sint sz \<noteq> 0" "\<bar>sint sz\<bar> \<le> 2 ^ 63"
proof -
  have nz: "uint sz \<noteq> 0" using assms by (simp add: uint_0_iff)
  have lt: "uint sz < 2 ^ 64" using uint_lt2p [of sz] by simp
  have ge: "0 \<le> uint sz" by simp
  show "\<bar>sint sz\<bar> \<le> uint sz" using sint_cases64 [of sz] lt ge by auto
  show "sint sz \<noteq> 0" using sint_cases64 [of sz] lt nz by auto
  show "\<bar>sint sz\<bar> \<le> 2 ^ 63" using sint_cases64 [of sz] lt ge by auto
qed

subsection \<open>The wrap function\<close>

lemma wrapIndex_uint_cases:
  fixes idx sz :: "64 word"
  assumes "sz \<noteq> 0"
  shows "uint (wrapIndex idx sz) =
     (if sint idx smod sint sz < 0 then sint idx smod sint sz + uint sz else sint idx smod sint sz)"
proof -
  define m where "m = sint idx smod sint sz"
  have rng: "- \<bar>sint sz\<bar> < m" "m < \<bar>sint sz\<bar>"
    using smod_int_range [of "sint sz" "sint idx"] abs_sint_le_uint(2) [OF assms]
    by (auto simp: m_def)
  have bnd: "\<bar>sint sz\<bar> \<le> uint sz" "\<bar>sint sz\<bar> \<le> 2 ^ 63"
    using abs_sint_le_uint [OF assms] by auto
  have lt: "uint sz < 2 ^ 64" using uint_lt2p [of sz] by simp
  have sm: "sint (word_of_int m :: 64 word) = m"
    using rng bnd by (intro sint_small) linarith+
  have neg: "(word_of_int m :: 64 word) <s 0 \<longleftrightarrow> m < 0"
    by (simp add: word_sless_alt sm)
  show ?thesis
  proof (cases "m < 0")
    case True
    have "(word_of_int m :: 64 word) + sz = word_of_int (m + uint sz)"
      by simp
    moreover have "uint (word_of_int (m + uint sz) :: 64 word) = m + uint sz"
      using True rng bnd lt by (intro uint_small) linarith+
    ultimately show ?thesis
      using True neg assms by (simp add: wrapIndex_def m_def [symmetric])
  next
    case False
    have "m < 2 ^ 64"
      using rng bnd by simp
    with False have "uint (word_of_int m :: 64 word) = m"
      by (intro uint_small) simp_all
    then show ?thesis
      using False neg assms by (simp add: wrapIndex_def m_def [symmetric])
  qed
qed

lemma wrapIndex_less:
  fixes idx sz :: "64 word"
  assumes "sz \<noteq> 0"
  shows "wrapIndex idx sz < sz"
proof -
  define m where "m = sint idx smod sint sz"
  have rng: "- \<bar>sint sz\<bar> < m" "m < \<bar>sint sz\<bar>"
    using smod_int_range [of "sint sz" "sint idx"] abs_sint_le_uint(2) [OF assms]
    by (auto simp: m_def)
  have bnd: "\<bar>sint sz\<bar> \<le> uint sz"
    using abs_sint_le_uint [OF assms] by auto
  have "uint (wrapIndex idx sz) < uint sz"
    using rng bnd by (simp add: wrapIndex_uint_cases [OF assms] m_def [symmetric])
  then show ?thesis by (simp add: word_less_def)
qed

lemma wrapIndex_mod:
  fixes idx sz :: "64 word"
  assumes "sz \<noteq> 0" "uint sz < 2 ^ 63"
  shows "uint (wrapIndex idx sz) = sint idx mod uint sz"
proof -
  have eq: "sint sz = uint sz"
    using sint_cases64 [of sz] assms(2) by auto
  have pos: "0 < uint sz"
    using assms(1) by (simp add: uint_0_iff order_less_le)
  show ?thesis
    using wrap_int [OF pos, of "sint idx"]
    by (simp add: wrapIndex_uint_cases [OF assms(1)] eq split: if_splits)
qed

text \<open>
  For a size that a buffer can have (at most \<^verbatim>\<open>INT64_MAX\<close>) the signed operations of
  \<^verbatim>\<open>wrapIndex\<close> stay inside \<^verbatim>\<open>int64_t\<close>: the cast of the size keeps its value, the
  divisor is positive, and the addition does not overflow.
\<close>

lemma wrapIndex_no_overflow:
  fixes idx sz :: "64 word"
  assumes "sz \<noteq> 0" "uint sz < 2 ^ 63"
  shows "sint sz = uint sz \<and> 0 < sint sz \<and>
         - (2 ^ 63) \<le> sint idx smod sint sz \<and> sint idx smod sint sz < 2 ^ 63 \<and>
         (sint idx smod sint sz < 0 \<longrightarrow>
            0 \<le> sint idx smod sint sz + sint sz \<and> sint idx smod sint sz + sint sz < 2 ^ 63)"
proof -
  have eq: "sint sz = uint sz"
    using sint_cases64 [of sz] assms(2) by auto
  have pos: "0 < uint sz"
    using assms(1) by (simp add: uint_0_iff order_less_le)
  have rng: "- uint sz < sint idx smod uint sz" "sint idx smod uint sz < uint sz"
    using smod_int_range [of "uint sz" "sint idx"] pos by auto
  show ?thesis
    using rng pos assms(2) by (simp add: eq)
qed

text \<open>
  C3. For every 64-bit signed offset and every positive buffer length (a \<^verbatim>\<open>size_t\<close> up
  to \<^verbatim>\<open>INT64_MAX\<close>), the result of \<^verbatim>\<open>wrapIndex\<close> is below the length, it is the
  mathematical residue of the offset modulo the length, and two offsets that differ by an
  integer multiple of the length have the same result.
\<close>

theorem wrapIndex_range_modular:
  fixes idx sz :: "64 word"
  assumes "sz \<noteq> 0" and "uint sz < 2 ^ 63"
  shows "wrapIndex idx sz < sz \<and>
         uint (wrapIndex idx sz) = sint idx mod uint sz \<and>
         (\<forall>idx' k. sint idx' = sint idx + k * uint sz \<longrightarrow> wrapIndex idx' sz = wrapIndex idx sz)"
proof (intro conjI allI impI)
  show "wrapIndex idx sz < sz" by (rule wrapIndex_less [OF assms(1)])
  show "uint (wrapIndex idx sz) = sint idx mod uint sz" by (rule wrapIndex_mod [OF assms])
next
  fix idx' :: "64 word" and k :: int
  assume "sint idx' = sint idx + k * uint sz"
  then have "sint idx' mod uint sz = sint idx mod uint sz" by simp
  then have "uint (wrapIndex idx' sz) = uint (wrapIndex idx sz)"
    by (simp add: wrapIndex_mod [OF assms])
  then show "wrapIndex idx' sz = wrapIndex idx sz"
    by (simp add: word_uint_eq_iff)
qed

theorem wrapIndex_range_modular_witness:
  "(10 :: 64 word) \<noteq> 0 \<and> uint (10 :: 64 word) < 2 ^ 63 \<and>
   wrapIndex (- 7) 10 < 10 \<and> uint (wrapIndex (- 7) 10) = 3 \<and>
   sint (13 :: 64 word) = sint (- 7 :: 64 word) + 2 * uint (10 :: 64 word) \<and>
   wrapIndex 13 10 = wrapIndex (- 7) 10"
proof -
  have h1: "(10 :: 64 word) \<noteq> 0" by simp
  have h2: "uint (10 :: 64 word) < 2 ^ 63" by simp
  have h3: "sint (13 :: 64 word) = sint (- 7 :: 64 word) + 2 * uint (10 :: 64 word)" by simp
  note t = wrapIndex_range_modular [OF h1 h2, of "- 7"]
  from t have a: "wrapIndex (- 7) 10 < (10 :: 64 word)" by blast
  from t have "uint (wrapIndex (- 7) 10) = sint (- 7 :: 64 word) mod uint (10 :: 64 word)" by blast
  then have b: "uint (wrapIndex (- 7) 10) = 3" by simp
  from t h3 have c: "wrapIndex 13 10 = wrapIndex (- 7) 10" by blast
  from h1 h2 a b h3 c show ?thesis by blast
qed



subsection \<open>The audio callback\<close>

lemma length_audioFrame:
  "length (fst (audioFrame a pos)) = outCh a"
  by (simp add: audioFrame_def Let_def)

lemma length_audioFrames:
  "length (fst (audioFrames a n pos)) = n * outCh a"
proof (induction n arbitrary: pos)
  case 0
  show ?case by simp
next
  case (Suc n)
  obtain s p where f: "audioFrame a pos = (s, p)" by (cases "audioFrame a pos")
  obtain rest q where g: "audioFrames a n p = (rest, q)" by (cases "audioFrames a n p")
  have "length s = outCh a" using length_audioFrame [of a pos] f by simp
  moreover have "length rest = n * outCh a" using Suc.IH [of p] g by simp
  ultimately show ?case using f g by simp
qed

lemma audioFrames_add:
  "audioFrames a (m + n) pos =
     (let (o1, p1) = audioFrames a m pos; (o2, p2) = audioFrames a n p1 in (o1 @ o2, p2))"
proof (induction m arbitrary: pos)
  case 0
  show ?case by (simp split: prod.splits)
next
  case (Suc m)
  show ?case by (simp add: Suc.IH split: prod.splits)
qed

lemma audioFrames_silent:
  assumes "isPaused a \<or> (length (audioData (wavFile a)) \<le> unat pos \<and> \<not> loopAudio a)"
  shows "audioFrames a n pos = (replicate (n * outCh a) 0, pos)"
proof (induction n)
  case 0
  show ?case by simp
next
  case (Suc n)
  have "audioFrame a pos = (replicate (outCh a) 0, pos)"
    using assms by (auto simp: audioFrame_def Let_def)
  then show ?case using Suc.IH by (simp add: replicate_add)
qed

lemma unat_plus1:
  fixes pos :: "64 word"
  assumes "unat pos < N" "N < 2 ^ 64"
  shows "unat (pos + 1) = unat pos + 1"
proof -
  have "unat pos + unat (1 :: 64 word) < 2 ^ LENGTH(64)"
    using assms by simp
  then have "unat (pos + 1) = unat pos + unat (1 :: 64 word)"
    by (simp only: unat_add_lem [THEN iffD1])
  then show ?thesis by simp
qed

lemma audioFrames_consecutive:
  fixes a :: "'a::{zero,times} audio"
  assumes "\<not> isPaused a" "length (audioData (wavFile a)) < 2 ^ 64"
    and "unat pos + n \<le> length (audioData (wavFile a))"
  shows "audioFrames a n pos =
           (concat (map (\<lambda>i. replicate (outCh a) (audioData (wavFile a) ! (unat pos + i) * volume a)) [0..<n]),
            pos + of_nat n) \<and>
         unat (pos + of_nat n) = unat pos + n"
  using assms(3)
proof (induction n arbitrary: pos)
  case 0
  show ?case by simp
next
  case (Suc n)
  let ?N = "length (audioData (wavFile a))"
  have lt: "unat pos < ?N" using Suc.prems by simp
  have u: "unat (pos + 1) = unat pos + 1"
    using unat_plus1 [OF lt assms(2)] .
  have fr: "audioFrame a pos =
      (replicate (outCh a) (audioData (wavFile a) ! unat pos * volume a), pos + 1)"
    using assms(1) lt by (auto simp: audioFrame_def Let_def)
  have ih: "audioFrames a n (pos + 1) =
           (concat (map (\<lambda>i. replicate (outCh a) (audioData (wavFile a) ! (unat (pos + 1) + i) * volume a)) [0..<n]),
            pos + 1 + of_nat n) \<and>
         unat (pos + 1 + of_nat n) = unat (pos + 1) + n"
    using Suc.prems u by (intro Suc.IH) simp
  have sh: "map (\<lambda>i. replicate (outCh a) (audioData (wavFile a) ! (unat pos + i) * volume a)) [0..<Suc n] =
     replicate (outCh a) (audioData (wavFile a) ! unat pos * volume a) #
     map (\<lambda>i. replicate (outCh a) (audioData (wavFile a) ! (unat (pos + 1) + i) * volume a)) [0..<n]"
  proof -
    have e: "[0..<Suc n] = 0 # map Suc [0..<n]"
      by (simp add: upt_conv_Cons map_Suc_upt del: upt_Suc)
    show ?thesis
      unfolding e by (simp add: u o_def del: upt_Suc)
  qed
  have w: "pos + of_nat (Suc n) = pos + 1 + of_nat n" by simp
  show ?case
    unfolding sh w using fr ih u by simp
qed

lemma audioFrame_wrap:
  fixes a :: "'a::{zero,times} audio"
  assumes "\<not> isPaused a" "audioData (wavFile a) \<noteq> []" "loopAudio a"
    and "length (audioData (wavFile a)) \<le> unat pos"
  shows "audioFrame a pos = audioFrame a 0"
    and "audioFrame a pos = (replicate (outCh a) (audioData (wavFile a) ! 0 * volume a), 1)"
  using assms by (auto simp: audioFrame_def Let_def)


lemma audioFrame_position_irrelevant:
  "audioFrame (a\<lparr>playbackPosition := p\<rparr>) pos = audioFrame a pos"
  by (simp add: audioFrame_def outCh_def)

lemma audioFrames_position_irrelevant:
  "audioFrames (a\<lparr>playbackPosition := p\<rparr>) n pos = audioFrames a n pos"
  by (induction n arbitrary: pos) (simp_all add: audioFrame_position_irrelevant)

lemma audioFrames_wrap:
  fixes a :: "'a::{zero,times} audio"
  assumes "\<not> isPaused a" "audioData (wavFile a) \<noteq> []" "loopAudio a"
    and "length (audioData (wavFile a)) \<le> unat pos" "0 < n"
  shows "audioFrames a n pos = audioFrames a n 0"
proof -
  obtain k where n: "n = Suc k" using assms(5) by (cases n) auto
  show ?thesis
    unfolding n using audioFrame_wrap(1) [OF assms(1-4)] by simp
qed

text \<open>
  C2. On a non-empty sample buffer, a call of the audio callback with frame count \<open>f\<close>
  writes \<open>f\<close> times the channel count samples. Paused, it writes zeros and leaves the
  position. Not paused and with \<open>f\<close> samples left before the end, it writes each of the
  next \<open>f\<close> samples (times the volume) once per channel and adds \<open>f\<close> to the
  position. At or past the end it goes on from position 0 when looping is on, and writes
  zeros and keeps the position when it is off. A call for \<open>m + n\<close> frames is a call for
  \<open>m\<close> frames followed by one for \<open>n\<close>, which carries these cases across the end of
  the buffer.
\<close>

theorem audioCallback_contract:
  fixes a :: "'a::{zero,times} audio"
  assumes ne: "audioData (wavFile a) \<noteq> []"
    and sz: "length (audioData (wavFile a)) < 2 ^ 64"
  shows "length (fst (audioCallback a f)) = f * outCh a \<and>
    (isPaused a \<longrightarrow> audioCallback a f = (replicate (f * outCh a) 0, a)) \<and>
    (\<not> isPaused a \<and> unat (playbackPosition a) + f \<le> length (audioData (wavFile a)) \<longrightarrow>
       audioCallback a f =
         (concat (map (\<lambda>i. replicate (outCh a)
                    (audioData (wavFile a) ! (unat (playbackPosition a) + i) * volume a)) [0..<f]),
          a\<lparr>playbackPosition := playbackPosition a + of_nat f\<rparr>) \<and>
       unat (playbackPosition a + of_nat f) = unat (playbackPosition a) + f) \<and>
    (\<not> isPaused a \<and> length (audioData (wavFile a)) \<le> unat (playbackPosition a) \<and>
       loopAudio a \<and> 0 < f \<longrightarrow>
       audioCallback a f = audioCallback (a\<lparr>playbackPosition := 0\<rparr>) f) \<and>
    (\<not> isPaused a \<and> length (audioData (wavFile a)) \<le> unat (playbackPosition a) \<and>
       \<not> loopAudio a \<longrightarrow>
       audioCallback a f = (replicate (f * outCh a) 0, a)) \<and>
    (\<forall>m n. f = m + n \<longrightarrow>
       audioCallback a f =
         (let (o1, a1) = audioCallback a m; (o2, a2) = audioCallback a1 n in (o1 @ o2, a2)))"
proof (intro conjI impI allI)
  obtain out p where fr: "audioFrames a f (playbackPosition a) = (out, p)"
    by (cases "audioFrames a f (playbackPosition a)")
  with length_audioFrames [of a f "playbackPosition a"]
  show "length (fst (audioCallback a f)) = f * outCh a"
    by (simp add: audioCallback_def)
next
  assume "isPaused a"
  then show "audioCallback a f = (replicate (f * outCh a) 0, a)"
    by (simp add: audioCallback_def audioFrames_silent)
next
  assume h: "\<not> isPaused a \<and> unat (playbackPosition a) + f \<le> length (audioData (wavFile a))"
  note c = audioFrames_consecutive [OF conjunct1 [OF h] sz conjunct2 [OF h]]
  from c show "audioCallback a f =
         (concat (map (\<lambda>i. replicate (outCh a)
                    (audioData (wavFile a) ! (unat (playbackPosition a) + i) * volume a)) [0..<f]),
          a\<lparr>playbackPosition := playbackPosition a + of_nat f\<rparr>)"
    by (simp add: audioCallback_def)
  from c show "unat (playbackPosition a + of_nat f) = unat (playbackPosition a) + f"
    by simp
next
  assume h: "\<not> isPaused a \<and> length (audioData (wavFile a)) \<le> unat (playbackPosition a) \<and>
       loopAudio a \<and> 0 < f"
  then have "audioFrames a f (playbackPosition a) = audioFrames a f 0"
    using ne by (intro audioFrames_wrap) simp_all
  then show "audioCallback a f = audioCallback (a\<lparr>playbackPosition := 0\<rparr>) f"
    by (simp add: audioCallback_def audioFrames_position_irrelevant split: prod.splits)
next
  assume "\<not> isPaused a \<and> length (audioData (wavFile a)) \<le> unat (playbackPosition a) \<and>
       \<not> loopAudio a"
  then show "audioCallback a f = (replicate (f * outCh a) 0, a)"
    by (simp add: audioCallback_def audioFrames_silent)
next
  fix m n
  assume "f = m + n"
  then show "audioCallback a f =
         (let (o1, a1) = audioCallback a m; (o2, a2) = audioCallback a1 n in (o1 @ o2, a2))"
    by (simp add: audioCallback_def audioFrames_add audioFrames_position_irrelevant
        split: prod.splits)
qed

theorem audioCallback_contract_witness:
  "length (fst (audioCallback demoAudio 2)) = 4 \<and>
   audioCallback demoAudio 2 = ([40, 40, 60, 60], demoAudio\<lparr>playbackPosition := 3\<rparr>) \<and>
   audioCallback (demoAudio\<lparr>isPaused := True\<rparr>) 2 = ([0, 0, 0, 0], demoAudio\<lparr>isPaused := True\<rparr>) \<and>
   audioCallback (demoAudio\<lparr>playbackPosition := 3\<rparr>) 2 =
     audioCallback (demoAudio\<lparr>playbackPosition := 0\<rparr>) 2 \<and>
   audioCallback (demoAudio\<lparr>playbackPosition := 3, loopAudio := False\<rparr>) 2 =
     ([0, 0, 0, 0], demoAudio\<lparr>playbackPosition := 3, loopAudio := False\<rparr>) \<and>
   audioCallback demoAudio 2 =
     (let (o1, a1) = audioCallback demoAudio 1; (o2, a2) = audioCallback a1 1 in (o1 @ o2, a2))"
proof -
  have data: "audioData (wavFile demoAudio) = [10, 20, 30]"
    and pos: "playbackPosition demoAudio = 1"
    and vol: "volume demoAudio = 2"
    and np: "\<not> isPaused demoAudio"
    and lp: "loopAudio demoAudio"
    and chn: "gOutputChannels demoAudio = 2"
    by (simp_all add: demoAudio_def)
  have ne: "audioData (wavFile b) \<noteq> []" and sz: "length (audioData (wavFile b)) < 2 ^ 64"
    if "wavFile b = wavFile demoAudio" for b :: "int audio"
    using that by (simp_all add: data)
  have ch: "outCh b = 2" if "gOutputChannels b = gOutputChannels demoAudio" for b :: "int audio"
    using that by (simp add: outCh_def chn)
  have two: "[0..<2] = [0, 1]" by (simp add: upt_conv_Cons)
  have rep4: "replicate 4 (0::int) = [0, 0, 0, 0]" by (simp add: numeral_eq_Suc)
  have rep2: "replicate 2 (x::int) = [x, x]" for x by (simp add: numeral_eq_Suc)
  note t1 = audioCallback_contract [of demoAudio 2, OF ne [OF refl] sz [OF refl]]
  have w2: "wavFile (demoAudio\<lparr>isPaused := True\<rparr>) = wavFile demoAudio" by simp
  note t2 = audioCallback_contract [of "demoAudio\<lparr>isPaused := True\<rparr>" 2, OF ne [OF w2] sz [OF w2]]
  have w3: "wavFile (demoAudio\<lparr>playbackPosition := 3\<rparr>) = wavFile demoAudio" by simp
  note t3 = audioCallback_contract [of "demoAudio\<lparr>playbackPosition := 3\<rparr>" 2, OF ne [OF w3] sz [OF w3]]
  have w4: "wavFile (demoAudio\<lparr>playbackPosition := 3, loopAudio := False\<rparr>) = wavFile demoAudio" by simp
  note t4 = audioCallback_contract [of "demoAudio\<lparr>playbackPosition := 3, loopAudio := False\<rparr>" 2,
      OF ne [OF w4] sz [OF w4]]
  have a: "length (fst (audioCallback demoAudio 2)) = 4"
    using t1 [THEN conjunct1] by (simp add: ch)
  have "\<not> isPaused demoAudio \<and>
      unat (playbackPosition demoAudio) + 2 \<le> length (audioData (wavFile demoAudio))"
    by (simp add: data pos np)
  from t1 [THEN conjunct2, THEN conjunct2, THEN conjunct1, THEN mp, OF this, THEN conjunct1]
  have b: "audioCallback demoAudio 2 = ([40, 40, 60, 60], demoAudio\<lparr>playbackPosition := 3\<rparr>)"
    by (simp add: two data pos vol ch rep2)
  have "isPaused (demoAudio\<lparr>isPaused := True\<rparr>)" by simp
  from t2 [THEN conjunct2, THEN conjunct1, THEN mp, OF this]
  have c: "audioCallback (demoAudio\<lparr>isPaused := True\<rparr>) 2 =
      ([0, 0, 0, 0], demoAudio\<lparr>isPaused := True\<rparr>)"
    by (simp add: ch rep4)
  have "\<not> isPaused (demoAudio\<lparr>playbackPosition := 3\<rparr>) \<and>
      length (audioData (wavFile (demoAudio\<lparr>playbackPosition := 3\<rparr>)))
        \<le> unat (playbackPosition (demoAudio\<lparr>playbackPosition := 3\<rparr>)) \<and>
      loopAudio (demoAudio\<lparr>playbackPosition := 3\<rparr>) \<and> 0 < (2::nat)"
    by (simp add: data np lp)
  from t3 [THEN conjunct2, THEN conjunct2, THEN conjunct2, THEN conjunct1, THEN mp, OF this]
  have d: "audioCallback (demoAudio\<lparr>playbackPosition := 3\<rparr>) 2 =
     audioCallback (demoAudio\<lparr>playbackPosition := 0\<rparr>) 2"
    by simp
  have "\<not> isPaused (demoAudio\<lparr>playbackPosition := 3, loopAudio := False\<rparr>) \<and>
      length (audioData (wavFile (demoAudio\<lparr>playbackPosition := 3, loopAudio := False\<rparr>)))
        \<le> unat (playbackPosition (demoAudio\<lparr>playbackPosition := 3, loopAudio := False\<rparr>)) \<and>
      \<not> loopAudio (demoAudio\<lparr>playbackPosition := 3, loopAudio := False\<rparr>)"
    by (simp add: data np)
  from t4 [THEN conjunct2, THEN conjunct2, THEN conjunct2, THEN conjunct2, THEN conjunct1, THEN mp, OF this]
  have e: "audioCallback (demoAudio\<lparr>playbackPosition := 3, loopAudio := False\<rparr>) 2 =
     ([0, 0, 0, 0], demoAudio\<lparr>playbackPosition := 3, loopAudio := False\<rparr>)"
    by (simp add: ch rep4)
  have "(2::nat) = 1 + 1" by simp
  from t1 [THEN conjunct2, THEN conjunct2, THEN conjunct2, THEN conjunct2, THEN conjunct2,
      THEN spec, THEN spec, THEN mp, OF this]
  have f: "audioCallback demoAudio 2 =
     (let (o1, a1) = audioCallback demoAudio 1; (o2, a2) = audioCallback a1 1 in (o1 @ o2, a2))" .
  show ?thesis
    by (intro conjI) (fact a b c d e f)+
qed

subsection \<open>The history ring\<close>

lemma pushLineToHistory_Some:
  assumes "wf_history h"
  shows "pushLineToHistory h =
     Some (h\<lparr>lineHistory := currentLine h @
                take (nat (HISTORY_LINES h - 1) * NUM_BARS h) (lineHistory h) @
                drop (nat (HISTORY_LINES h) * NUM_BARS h) (lineHistory h),
             historyFillCount :=
               (if historyFillCount h < HISTORY_LINES h
                then historyFillCount h + 1 else historyFillCount h)\<rparr>)"
proof -
  let ?nb = "NUM_BARS h"
  let ?d = "nat (HISTORY_LINES h)"
  let ?n = "nat (HISTORY_LINES h - 1) * ?nb"
  from assms have len: "length (lineHistory h) = MAX_HISTORY_LINES * ?nb"
    and cur: "length (currentLine h) = ?nb"
    and d1: "1 \<le> HISTORY_LINES h" and d2: "?d \<le> MAX_HISTORY_LINES"
    by (auto simp: wf_history_def)
  have dn: "nat (HISTORY_LINES h - 1) = ?d - 1" by simp
  have sum: "?nb + ?n = ?d * ?nb"
    using d1 by (cases ?d) (simp_all add: dn)
  have le: "?d * ?nb \<le> MAX_HISTORY_LINES * ?nb"
    using d2 by (rule mult_le_mono1)
  have nb_le: "?nb \<le> length (lineHistory h)" and n_le: "?n \<le> length (lineHistory h)"
    using sum le len by linarith+
  have mv: "memmove (lineHistory h) ?nb 0 ?n =
      Some (take ?nb (lineHistory h) @ take ?n (lineHistory h) @ drop (?d * ?nb) (lineHistory h))"
    using sum le len n_le by (simp add: memmove_def)
  have cp: "memcpy (take ?nb (lineHistory h) @ take ?n (lineHistory h) @ drop (?d * ?nb) (lineHistory h))
        0 (currentLine h) ?nb =
      Some (currentLine h @ take ?n (lineHistory h) @ drop (?d * ?nb) (lineHistory h))"
    using cur nb_le by (simp add: memcpy_def min_absorb2)
  show ?thesis
    using d1 by (simp add: pushLineToHistory_def mv cp)
qed


lemma row_moved_low:
  fixes buf :: "'a list"
  assumes "length A = nb" "Suc j < d" "d * nb \<le> length buf"
  shows "take nb (drop (Suc j * nb) (A @ take ((d - 1) * nb) buf @ C)) = take nb (drop (j * nb) buf)"
proof -
  let ?n = "(d - 1) * nb"
  have jn: "j * nb + nb \<le> ?n"
  proof -
    have "Suc j \<le> d - 1" using assms(2) by simp
    then have "Suc j * nb \<le> (d - 1) * nb" by (rule mult_le_mono1)
    then show ?thesis by simp
  qed
  have nle: "?n \<le> length buf"
  proof -
    have "(d - 1) * nb \<le> d * nb" by (rule mult_le_mono1) simp
    with assms(3) show ?thesis by linarith
  qed
  have "drop (Suc j * nb) (A @ take ?n buf @ C) = drop (j * nb) (take ?n buf @ C)"
    using assms(1) by simp
  also have "\<dots> = drop (j * nb) (take ?n buf) @ C"
  proof -
    have "j * nb \<le> ?n" using jn by linarith
    with nle show ?thesis by simp
  qed
  finally have "take nb (drop (Suc j * nb) (A @ take ?n buf @ C)) =
      take nb (drop (j * nb) (take ?n buf) @ C)" by simp
  also have "\<dots> = take nb (drop (j * nb) (take ?n buf))"
  proof -
    have "nb \<le> ?n - j * nb" using jn by linarith
    with nle show ?thesis by simp
  qed
  also have "\<dots> = take nb (drop (j * nb) buf)"
  proof -
    have "nb \<le> ?n - j * nb" using jn by linarith
    then show ?thesis by (simp add: drop_take min_absorb1)
  qed
  finally show ?thesis .
qed

lemma row_moved_high:
  fixes buf :: "'a list"
  assumes "length A = nb" "1 \<le> d" "d \<le> k" "d * nb \<le> length buf"
  shows "take nb (drop (k * nb) (A @ take ((d - 1) * nb) buf @ drop (d * nb) buf)) =
         take nb (drop (k * nb) buf)"
proof -
  let ?n = "(d - 1) * nb"
  have dk: "d * nb \<le> k * nb" using assms(3) by (rule mult_le_mono1)
  have sum: "nb + ?n = d * nb" using assms(2) by (cases d) simp_all
  have nle: "?n \<le> length buf" using sum assms(4) by linarith
  have l: "length (A @ take ?n buf) = d * nb"
    using assms(1) nle sum by simp
  have "drop (k * nb) ((A @ take ?n buf) @ drop (d * nb) buf) =
      drop (k * nb) (A @ take ?n buf) @ drop (k * nb - d * nb) (drop (d * nb) buf)"
    by (simp only: drop_append l)
  also have "drop (k * nb) (A @ take ?n buf) = []"
    using l dk by (simp only: drop_all)
  also have "drop (k * nb - d * nb) (drop (d * nb) buf) = drop (k * nb) buf"
    using dk by simp
  finally show ?thesis by simp
qed

lemma push_rows:
  assumes wf: "wf_history h" and len: "length line = NUM_BARS h"
  shows "\<exists>h'. push line h = Some h' \<and> wf_history h' \<and>
           NUM_BARS h' = NUM_BARS h \<and> HISTORY_LINES h' = HISTORY_LINES h \<and>
           historyFillCount h' =
             (if historyFillCount h < HISTORY_LINES h
              then historyFillCount h + 1 else historyFillCount h) \<and>
           row h' 0 = line \<and>
           (\<forall>k. Suc k < nat (HISTORY_LINES h) \<longrightarrow> row h' (Suc k) = row h k) \<and>
           (\<forall>k. nat (HISTORY_LINES h) \<le> k \<longrightarrow> row h' k = row h k)"
proof -
  let ?g = "h\<lparr>currentLine := line\<rparr>"
  let ?nb = "NUM_BARS h"
  let ?d = "nat (HISTORY_LINES h)"
  let ?buf = "lineHistory h"
  have wfg: "wf_history ?g" using wf len by (simp add: wf_history_def)
  from wf have blen: "length ?buf = MAX_HISTORY_LINES * ?nb"
    and d1: "1 \<le> HISTORY_LINES h" and d2: "?d \<le> MAX_HISTORY_LINES"
    by (auto simp: wf_history_def)
  have dn: "nat (HISTORY_LINES h - 1) = ?d - 1" by simp
  have d1': "1 \<le> ?d" using d1 by simp
  have le: "?d * ?nb \<le> length ?buf"
    unfolding blen using d2 by (rule mult_le_mono1)
  have sum: "?nb + (?d - 1) * ?nb = ?d * ?nb" using d1' by (cases ?d) simp_all
  define new where "new = line @ take ((?d - 1) * ?nb) ?buf @ drop (?d * ?nb) ?buf"
  define h' where "h' = ?g\<lparr>lineHistory := new,
             historyFillCount :=
               (if historyFillCount h < HISTORY_LINES h
                then historyFillCount h + 1 else historyFillCount h)\<rparr>"
  have p: "push line h = Some h'"
    using pushLineToHistory_Some [OF wfg] by (simp add: push_def h'_def new_def dn)
  have newlen: "length new = length ?buf"
    using len le sum by (simp add: new_def)
  have wf': "wf_history h'"
    using wf len newlen by (simp add: wf_history_def h'_def)
  have r0: "row h' 0 = line"
    using len by (simp add: row_def h'_def new_def)
  have rl: "row h' (Suc k) = row h k" if "Suc k < ?d" for k
  proof -
    have "row h' (Suc k) = take ?nb (drop (Suc k * ?nb) new)"
      by (simp add: row_def h'_def)
    also have "\<dots> = take ?nb (drop (k * ?nb) ?buf)"
      unfolding new_def by (rule row_moved_low [OF len that le])
    finally show ?thesis by (simp add: row_def)
  qed
  have rh: "row h' k = row h k" if "?d \<le> k" for k
  proof -
    have "row h' k = take ?nb (drop (k * ?nb) new)"
      by (simp add: row_def h'_def)
    also have "\<dots> = take ?nb (drop (k * ?nb) ?buf)"
      unfolding new_def by (rule row_moved_high [OF len d1' that le])
    finally show ?thesis by (simp add: row_def)
  qed
  show ?thesis
    using p wf' r0 rl rh by (intro exI [of _ h']) (simp add: h'_def)
qed


lemma pushes_rows:
  assumes "wf_history h" and "\<forall>l\<in>set ls. length l = NUM_BARS h"
  shows "\<exists>h'. pushes ls h = Some h' \<and> wf_history h' \<and>
           NUM_BARS h' = NUM_BARS h \<and> HISTORY_LINES h' = HISTORY_LINES h \<and>
           (historyFillCount h \<le> HISTORY_LINES h \<longrightarrow>
              historyFillCount h' = min (historyFillCount h + int (length ls)) (HISTORY_LINES h)) \<and>
           (\<forall>k < nat (HISTORY_LINES h).
              row h' k = (if k < length ls then rev ls ! k else row h (k - length ls)))"
  using assms
proof (induction ls arbitrary: h)
  case Nil
  then show ?case by simp
next
  case (Cons l ls)
  from Cons.prems have ll: "length l = NUM_BARS h" by simp
  from push_rows [OF Cons.prems(1) ll] obtain h1 where
    p1: "push l h = Some h1" and wf1: "wf_history h1"
    and nb1: "NUM_BARS h1 = NUM_BARS h" and d1: "HISTORY_LINES h1 = HISTORY_LINES h"
    and c1: "historyFillCount h1 =
             (if historyFillCount h < HISTORY_LINES h
              then historyFillCount h + 1 else historyFillCount h)"
    and r0: "row h1 0 = l"
    and rl: "\<And>k. Suc k < nat (HISTORY_LINES h) \<Longrightarrow> row h1 (Suc k) = row h k"
    by blast
  have ls1: "\<forall>l\<in>set ls. length l = NUM_BARS h1" using Cons.prems(2) nb1 by simp
  from Cons.IH [OF wf1 ls1] obtain h' where
    p': "pushes ls h1 = Some h'" and wf': "wf_history h'"
    and nb': "NUM_BARS h' = NUM_BARS h1" and d': "HISTORY_LINES h' = HISTORY_LINES h1"
    and c': "historyFillCount h1 \<le> HISTORY_LINES h1 \<longrightarrow>
              historyFillCount h' = min (historyFillCount h1 + int (length ls)) (HISTORY_LINES h1)"
    and r': "\<And>k. k < nat (HISTORY_LINES h1) \<Longrightarrow>
              row h' k = (if k < length ls then rev ls ! k else row h1 (k - length ls))"
    by blast
  have rows: "row h' k = (if k < length (l # ls) then rev (l # ls) ! k
                          else row h (k - length (l # ls)))"
    if k: "k < nat (HISTORY_LINES h)" for k
  proof -
    consider "k < length ls" | "k = length ls" | "length ls < k" by linarith
    then show ?thesis
    proof cases
      case 1
      then show ?thesis using r' [of k] k d1 by (simp add: nth_append)
    next
      case 2
      then show ?thesis using r' [of k] k d1 r0 by (simp add: nth_append)
    next
      case 3
      then obtain j where j: "k - length ls = Suc j" by (cases "k - length ls") auto
      then have "Suc j < nat (HISTORY_LINES h)" using k by linarith
      then have "row h1 (Suc j) = row h j" by (rule rl)
      moreover have "j = k - length (l # ls)" using j by simp
      ultimately show ?thesis using r' [of k] k d1 3 j by simp
    qed
  qed
  have cnt: "historyFillCount h' = min (historyFillCount h + int (length (l # ls))) (HISTORY_LINES h)"
    if "historyFillCount h \<le> HISTORY_LINES h"
    using that c' c1 d1 by (auto simp: min_def split: if_splits)
  show ?case
    using p1 p' wf' nb' nb1 d' d1 rows cnt by simp
qed

lemma row_zero_ring:
  fixes h :: "'a::zero history"
  assumes "lineHistory h = replicate (MAX_HISTORY_LINES * NUM_BARS h) 0" "k < MAX_HISTORY_LINES"
  shows "row h k = replicate (NUM_BARS h) 0"
proof -
  have "Suc k * NUM_BARS h \<le> MAX_HISTORY_LINES * NUM_BARS h"
    using assms(2) by (intro mult_le_mono1) simp
  then have "NUM_BARS h \<le> MAX_HISTORY_LINES * NUM_BARS h - k * NUM_BARS h" by simp
  then show ?thesis
    by (simp add: row_def assms(1) min_absorb2)
qed

lemma pushes_reachable:
  assumes "reachable n h" "\<forall>l\<in>set ls. length l = n" "pushes ls h = Some h'"
  shows "reachable n h'"
  using assms
proof (induction ls arbitrary: h)
  case Nil
  then show ?case by simp
next
  case (Cons l ls)
  from Cons.prems(3) obtain h1 where p: "push l h = Some h1" and q: "pushes ls h1 = Some h'"
    by (auto split: option.splits)
  have "reachable n h1"
    using Cons.prems(1) _ p by (rule r_push) (use Cons.prems(2) in simp)
  then show ?case using Cons.prems(2) q by (intro Cons.IH) simp_all
qed


text \<open>
  C4. In a ring whose vectors have their sizes and whose depth is between 1 and the
  maximum: one push of a line \<open>L\<close> onto the all-zero ring leaves \<open>L\<close> in row 0 and
  zeros in every other row below the depth; and depth + 1 pushes of distinct lines leave
  the last line in row 0 and line number depth + 1 - k (counted from 1) in every row
  \<open>k\<close> below the depth, none of which is the first line.
\<close>

theorem history_shift_law:
  fixes h :: "'a::zero history"
  assumes "wf_history h"
  shows "(lineHistory h = replicate (MAX_HISTORY_LINES * NUM_BARS h) 0 \<and> length L = NUM_BARS h \<longrightarrow>
            (\<exists>h'. push L h = Some h' \<and> row h' 0 = L \<and>
               (\<forall>k. 0 < k \<and> k < nat (HISTORY_LINES h) \<longrightarrow> row h' k = replicate (NUM_BARS h) 0))) \<and>
         (length ls = nat (HISTORY_LINES h) + 1 \<and> distinct ls \<and> (\<forall>l\<in>set ls. length l = NUM_BARS h) \<longrightarrow>
            (\<exists>h'. pushes ls h = Some h' \<and> row h' 0 = last ls \<and>
               (\<forall>k < nat (HISTORY_LINES h).
                  row h' k = ls ! (nat (HISTORY_LINES h) - k) \<and> row h' k \<noteq> ls ! 0)))"
proof (intro conjI impI)
  let ?d = "nat (HISTORY_LINES h)"
  assume a: "lineHistory h = replicate (MAX_HISTORY_LINES * NUM_BARS h) 0 \<and> length L = NUM_BARS h"
  from assms have dmax: "?d \<le> MAX_HISTORY_LINES" by (simp add: wf_history_def nat_le_iff)
  from push_rows [OF assms conjunct2 [OF a]] obtain h' where
    p: "push L h = Some h'" and r0: "row h' 0 = L"
    and rl: "\<And>k. Suc k < ?d \<Longrightarrow> row h' (Suc k) = row h k"
    by blast
  have "row h' k = replicate (NUM_BARS h) 0" if "0 < k \<and> k < ?d" for k
  proof -
    from that obtain j where j: "k = Suc j" by (cases k) auto
    with that have "row h' k = row h j" using rl [of j] by simp
    moreover have "j < MAX_HISTORY_LINES" using that j dmax by simp
    ultimately show ?thesis using row_zero_ring [OF conjunct1 [OF a]] by simp
  qed
  with p r0 show "\<exists>h'. push L h = Some h' \<and> row h' 0 = L \<and>
      (\<forall>k. 0 < k \<and> k < ?d \<longrightarrow> row h' k = replicate (NUM_BARS h) 0)"
    by blast
next
  let ?d = "nat (HISTORY_LINES h)"
  assume a: "length ls = ?d + 1 \<and> distinct ls \<and> (\<forall>l\<in>set ls. length l = NUM_BARS h)"
  then have len: "length ls = ?d + 1" and dist: "distinct ls"
    and ll: "\<forall>l\<in>set ls. length l = NUM_BARS h" by simp_all
  from assms have "1 \<le> HISTORY_LINES h" by (simp add: wf_history_def)
  then have d1: "1 \<le> ?d" by linarith
  from pushes_rows [OF assms ll] obtain h' where
    p: "pushes ls h = Some h'"
    and rows: "\<And>k. k < ?d \<Longrightarrow>
        row h' k = (if k < length ls then rev ls ! k else row h (k - length ls))"
    by blast
  have rk: "row h' k = ls ! (?d - k)" if "k < ?d" for k
    using rows [OF that] that len by (simp add: rev_nth)
  have ne: "ls \<noteq> []" using len by auto
  have r0: "row h' 0 = last ls"
    using rk [of 0] d1 len ne by (simp add: last_conv_nth)
  have nk: "row h' k \<noteq> ls ! 0" if "k < ?d" for k
  proof -
    have "?d - k < length ls" "0 < length ls" "?d - k \<noteq> 0"
      using that len by simp_all
    then have "ls ! (?d - k) \<noteq> ls ! 0"
      using dist by (simp add: nth_eq_iff_index_eq)
    then show ?thesis using rk [OF that] by simp
  qed
  from p r0 rk nk show "\<exists>h'. pushes ls h = Some h' \<and> row h' 0 = last ls \<and>
      (\<forall>k < ?d. row h' k = ls ! (?d - k) \<and> row h' k \<noteq> ls ! 0)"
    by blast
qed

theorem history_shift_law_witness:
  "wf_history demoHistory \<and>
   (\<exists>h'. push [5, 7] demoHistory = Some h' \<and> row h' 0 = [5, 7] \<and>
      (\<forall>k. 0 < k \<and> k < 10 \<longrightarrow> row h' k = [0, 0])) \<and>
   (\<exists>h'. pushes demoLines demoHistory = Some h' \<and> row h' 0 = [11, 0] \<and>
      row h' 9 = [2, 0] \<and> (\<forall>k < 10. row h' k \<noteq> [1, 0]))"
proof -
  have wf: "wf_history demoHistory"
    by (simp add: wf_history_def demoHistory_def MAX_HISTORY_LINES_def)
  note t = history_shift_law [OF wf]
  have h1: "lineHistory demoHistory = replicate (MAX_HISTORY_LINES * NUM_BARS demoHistory) 0 \<and>
      length [5, 7 :: int] = NUM_BARS demoHistory"
    by (simp add: demoHistory_def)
  have d: "nat (HISTORY_LINES demoHistory) = 10" "NUM_BARS demoHistory = 2"
    by (simp_all add: demoHistory_def)
  from t [of "[5, 7]"] h1 have
    "\<exists>h'. push [5, 7] demoHistory = Some h' \<and> row h' 0 = [5, 7] \<and>
      (\<forall>k. 0 < k \<and> k < nat (HISTORY_LINES demoHistory) \<longrightarrow>
         row h' k = replicate (NUM_BARS demoHistory) 0)"
    by blast
  then have a: "\<exists>h'. push [5, 7] demoHistory = Some h' \<and> row h' 0 = [5, 7] \<and>
      (\<forall>k. 0 < k \<and> k < 10 \<longrightarrow> row h' k = [0, 0])"
    by (simp add: d numeral_2_eq_2)
  have h2: "length demoLines = nat (HISTORY_LINES demoHistory) + 1 \<and> distinct demoLines \<and>
      (\<forall>l\<in>set demoLines. length l = NUM_BARS demoHistory)"
    by (simp add: demoLines_def d)
  from t [of _ demoLines] h2 obtain h' where
    p: "pushes demoLines demoHistory = Some h'" and r0: "row h' 0 = last demoLines"
    and rk: "\<forall>k < nat (HISTORY_LINES demoHistory).
        row h' k = demoLines ! (nat (HISTORY_LINES demoHistory) - k) \<and> row h' k \<noteq> demoLines ! 0"
    by blast
  have r0': "row h' 0 = [11, 0]" using r0 by (simp add: demoLines_def)
  have r9: "row h' 9 = [2, 0]" using rk [rule_format, of 9] by (simp add: d demoLines_def)
  have "\<forall>k < 10. row h' k \<noteq> demoLines ! 0" using rk unfolding d by blast
  then have nk: "\<forall>k < 10. row h' k \<noteq> [1, 0]" by (simp add: demoLines_def)
  from p r0' r9 nk have b: "\<exists>h'. pushes demoLines demoHistory = Some h' \<and> row h' 0 = [11, 0] \<and>
      row h' 9 = [2, 0] \<and> (\<forall>k < 10. row h' k \<noteq> [1, 0])"
    by blast
  from wf a b show ?thesis by blast
qed


subsection \<open>The fill counter\<close>

lemma HISTORY_LINES_setHistoryLines:
  "HISTORY_LINES (setHistoryLines v h) = max 10 (min (int MAX_HISTORY_LINES) v)"
proof -
  have "clampf (real_of_int v) 10 (real MAX_HISTORY_LINES) =
      real_of_int (max 10 (min (int MAX_HISTORY_LINES) v))"
    by (simp add: clampf_def MAX_HISTORY_LINES_def max_def min_def)
  then show ?thesis by (simp add: setHistoryLines_def)
qed

lemma push_fill:
  assumes "push line h = Some h'"
  shows "HISTORY_LINES h' = HISTORY_LINES h \<and>
         historyFillCount h' =
           (if historyFillCount h < HISTORY_LINES h
            then historyFillCount h + 1 else historyFillCount h)"
  using assms
  by (auto simp: push_def pushLineToHistory_def split: if_splits option.splits)

lemma reachable_bounds:
  assumes "reachable n h"
  shows "wf_history h \<and> NUM_BARS h = n \<and> 0 \<le> historyFillCount h \<and>
         historyFillCount h \<le> int MAX_HISTORY_LINES \<and> 10 \<le> HISTORY_LINES h"
  using assms
proof (induction rule: reachable.induct)
  case r_init
  show ?case by (simp add: initHistory_def wf_history_def MAX_HISTORY_LINES_def)
next
  case (r_push h line h')
  then have wf: "wf_history h" and ll: "length line = NUM_BARS h" by simp_all
  from push_rows [OF wf ll] r_push.hyps(3)
  have "wf_history h'" "NUM_BARS h' = NUM_BARS h" by auto
  moreover have "HISTORY_LINES h \<le> int MAX_HISTORY_LINES" using wf by (simp add: wf_history_def)
  ultimately show ?case
    using r_push.IH push_fill [OF r_push.hyps(3)] by (auto split: if_splits)
next
  case (r_clear h)
  then show ?case by (simp add: clearVisualization_def wf_history_def)
next
  case (r_depth h v)
  have "10 \<le> HISTORY_LINES (setHistoryLines v h)"
    "HISTORY_LINES (setHistoryLines v h) \<le> int MAX_HISTORY_LINES"
    by (simp_all add: HISTORY_LINES_setHistoryLines MAX_HISTORY_LINES_def)
  moreover have "lineHistory (setHistoryLines v h) = lineHistory h"
    "currentLine (setHistoryLines v h) = currentLine h"
    "NUM_BARS (setHistoryLines v h) = NUM_BARS h"
    "historyFillCount (setHistoryLines v h) = historyFillCount h"
    by (simp_all add: setHistoryLines_def)
  ultimately show ?case using r_depth.IH by (simp add: wf_history_def)
qed

text \<open>
  C5, as the spec states it, fails: after eleven analysis cycles at the initial depth 140
  the fill counter is 11, and typing the depth 10 leaves the counter at 11.
\<close>

theorem fill_counter_invariant_counterexample:
  "reachable 1 (setHistoryLines 10 (the (pushes (replicate 11 [0]) (initHistory 1 :: real history)))) \<and>
   historyFillCount (setHistoryLines 10 (the (pushes (replicate 11 [0]) (initHistory 1 :: real history)))) = 11 \<and>
   HISTORY_LINES (setHistoryLines 10 (the (pushes (replicate 11 [0]) (initHistory 1 :: real history)))) = 10 \<and>
   \<not> historyFillCount (setHistoryLines 10 (the (pushes (replicate 11 [0]) (initHistory 1 :: real history))))
       \<le> HISTORY_LINES (setHistoryLines 10 (the (pushes (replicate 11 [0]) (initHistory 1 :: real history))))"
proof -
  let ?h0 = "initHistory 1 :: real history"
  let ?ls = "replicate 11 [0 :: real]"
  have r0: "reachable 1 ?h0" by (rule r_init)
  have wf: "wf_history ?h0" using reachable_bounds [OF r0] by simp
  have ll: "\<forall>l\<in>set ?ls. length l = NUM_BARS ?h0" by (simp add: initHistory_def)
  have inv0: "historyFillCount ?h0 \<le> HISTORY_LINES ?h0" by (simp add: initHistory_def)
  from pushes_rows [OF wf ll] inv0 obtain h' where
    p: "pushes ?ls ?h0 = Some h'"
    and c: "historyFillCount h' = min (historyFillCount ?h0 + int (length ?ls)) (HISTORY_LINES ?h0)"
    by blast
  have c11: "historyFillCount h' = 11" using c by (simp add: initHistory_def)
  have "\<forall>l\<in>set ?ls. length l = 1" by simp
  with r0 have "reachable 1 h'" using p by (rule pushes_reachable)
  then have r: "reachable 1 (setHistoryLines 10 h')" by (rule r_depth)
  have f: "historyFillCount (setHistoryLines 10 h') = 11"
    using c11 by (simp add: setHistoryLines_def)
  have d: "HISTORY_LINES (setHistoryLines 10 h') = 10"
    by (simp add: HISTORY_LINES_setHistoryLines MAX_HISTORY_LINES_def)
  have eq: "the (pushes ?ls ?h0) = h'" by (simp only: p option.sel)
  show ?thesis unfolding eq using r f d by simp
qed

text \<open>
  C5, amended. A push and a clear keep the fill counter at most the depth. An edit of the
  depth sets it to the typed number clamped to 10 ... \<open>MAX_HISTORY_LINES\<close> and does not
  touch the fill counter, so the counter is at most the depth afterwards exactly when it is
  at most the new depth. In every reachable state the fill counter is between 0 and
  \<open>MAX_HISTORY_LINES\<close> and the depth between 10 and \<open>MAX_HISTORY_LINES\<close>.
\<close>

theorem fill_counter_bounds:
  fixes h :: "'a::zero history"
  shows "(historyFillCount h \<le> HISTORY_LINES h \<and> push line h = Some h' \<longrightarrow>
            historyFillCount h' \<le> HISTORY_LINES h') \<and>
         (0 \<le> HISTORY_LINES h \<longrightarrow>
            historyFillCount (clearVisualization h) \<le> HISTORY_LINES (clearVisualization h)) \<and>
         historyFillCount (setHistoryLines v h) = historyFillCount h \<and>
         HISTORY_LINES (setHistoryLines v h) = max 10 (min (int MAX_HISTORY_LINES) v) \<and>
         ((historyFillCount (setHistoryLines v h) \<le> HISTORY_LINES (setHistoryLines v h)) =
            (historyFillCount h \<le> max 10 (min (int MAX_HISTORY_LINES) v))) \<and>
         (reachable n h \<longrightarrow>
            0 \<le> historyFillCount h \<and> historyFillCount h \<le> int MAX_HISTORY_LINES \<and>
            10 \<le> HISTORY_LINES h \<and> HISTORY_LINES h \<le> int MAX_HISTORY_LINES)"
proof (intro conjI impI)
  assume "historyFillCount h \<le> HISTORY_LINES h \<and> push line h = Some h'"
  then show "historyFillCount h' \<le> HISTORY_LINES h'"
    using push_fill [of line h h'] by (auto split: if_splits)
next
  assume "0 \<le> HISTORY_LINES h"
  then show "historyFillCount (clearVisualization h) \<le> HISTORY_LINES (clearVisualization h)"
    by (simp add: clearVisualization_def)
next
  show c: "historyFillCount (setHistoryLines v h) = historyFillCount h"
    by (simp add: setHistoryLines_def)
  show d: "HISTORY_LINES (setHistoryLines v h) = max 10 (min (int MAX_HISTORY_LINES) v)"
    by (rule HISTORY_LINES_setHistoryLines)
  show "(historyFillCount (setHistoryLines v h) \<le> HISTORY_LINES (setHistoryLines v h)) =
      (historyFillCount h \<le> max 10 (min (int MAX_HISTORY_LINES) v))"
    by (simp only: c d)
next
  assume r: "reachable n h"
  from reachable_bounds [OF r]
  show "0 \<le> historyFillCount h" "historyFillCount h \<le> int MAX_HISTORY_LINES"
    "10 \<le> HISTORY_LINES h" "HISTORY_LINES h \<le> int MAX_HISTORY_LINES"
    by (simp_all add: wf_history_def)
qed

theorem fill_counter_bounds_witness:
  "historyFillCount demoHistory \<le> HISTORY_LINES demoHistory \<and>
   push [5, 7] demoHistory = Some (the (push [5, 7] demoHistory)) \<and>
   historyFillCount (the (push [5, 7] demoHistory)) \<le> HISTORY_LINES (the (push [5, 7] demoHistory)) \<and>
   0 \<le> HISTORY_LINES demoHistory \<and>
   historyFillCount (clearVisualization demoHistory) \<le> HISTORY_LINES (clearVisualization demoHistory) \<and>
   HISTORY_LINES (setHistoryLines 1000 demoHistory) = 560 \<and>
   reachable 2 (initHistory 2 :: int history) \<and>
   historyFillCount (initHistory 2 :: int history) \<le> int MAX_HISTORY_LINES"
proof -
  have wf: "wf_history demoHistory"
    by (simp add: wf_history_def demoHistory_def MAX_HISTORY_LINES_def)
  have ll: "length [5, 7 :: int] = NUM_BARS demoHistory" by (simp add: demoHistory_def)
  from push_rows [OF wf ll] obtain g where g: "push [5, 7] demoHistory = Some g" by blast
  then have p: "push [5, 7] demoHistory = Some (the (push [5, 7] demoHistory))" by simp
  have i: "historyFillCount demoHistory \<le> HISTORY_LINES demoHistory" by (simp add: demoHistory_def)
  have z: "0 \<le> HISTORY_LINES demoHistory" by (simp add: demoHistory_def)
  have r: "reachable 2 (initHistory 2 :: int history)" by (rule r_init)
  note t1 = fill_counter_bounds [of demoHistory "[5, 7]" "the (push [5, 7] demoHistory)" 1000 2]
  note t2 = fill_counter_bounds [of "initHistory 2 :: int history" "[]" "initHistory 2" 0 2]
  from t1 i p have a: "historyFillCount (the (push [5, 7] demoHistory))
      \<le> HISTORY_LINES (the (push [5, 7] demoHistory))" by blast
  from t1 z have b: "historyFillCount (clearVisualization demoHistory)
      \<le> HISTORY_LINES (clearVisualization demoHistory)" by blast
  from t1 have "HISTORY_LINES (setHistoryLines 1000 demoHistory) = max 10 (min (int MAX_HISTORY_LINES) 1000)"
    by blast
  then have c: "HISTORY_LINES (setHistoryLines 1000 demoHistory) = 560"
    by (simp add: MAX_HISTORY_LINES_def)
  from t2 r have d: "historyFillCount (initHistory 2 :: int history) \<le> int MAX_HISTORY_LINES" by blast
  from i p a z b c r d show ?thesis by blast
qed

subsection \<open>Loading a file\<close>

lemma load_open_failure:
  "load SF_NULL w = (False, w)"
  by (simp add: load_def)

lemma load_failure_keeps_samples:
  assumes "\<not> fst (load f w)"
  shows "audioData (snd (load f w)) = audioData w \<and> bitsPerSample (snd (load f w)) = bitsPerSample w"
  using assms by (auto simp: load_def Let_def split: sndfile.splits if_splits)

lemma load_read_failure:
  assumes "framesRead \<le> 0"
  shows "load (SF_FILE sfinfo framesRead buffer) w =
     (False, w\<lparr>sampleRate := nat (samplerate sfinfo mod 2 ^ 32),
               sourceChannels := nat (channels sfinfo mod 2 ^ 16),
               numChannels := 1\<rparr>)"
  using assms by (simp add: load_def)

text \<open>
  C6. The claim is that a failed load leaves the sample buffer, the sample rate and the
  channel counts as they were. When the file does not open this holds
  (\<open>load_open_failure\<close>). When it opens and no frame can be read, \<^verbatim>\<open>load\<close> has
  already stored the header of the new file: with a 44100 Hz mono file loaded, a 48000 Hz
  stereo file without frames makes \<^verbatim>\<open>load\<close> return \<open>False\<close> and leaves the old
  samples with sample rate 48000 and 2 source channels.
\<close>

theorem load_failure_overwrites_header:
  "load emptyStereoFile demoWav = (False, demoWav\<lparr>sampleRate := 48000, sourceChannels := 2\<rparr>) \<and>
   audioData (snd (load emptyStereoFile demoWav)) = audioData demoWav \<and>
   sampleRate (snd (load emptyStereoFile demoWav)) = 48000 \<and> sampleRate demoWav = 44100 \<and>
   sourceChannels (snd (load emptyStereoFile demoWav)) = 2 \<and> sourceChannels demoWav = 1 \<and>
   snd (load emptyStereoFile demoWav) \<noteq> demoWav"
  by (simp add: load_def emptyStereoFile_def demoWav_def)

subsection \<open>The color mapper\<close>

lemma getColormapColor_low:
  assumes "position (points ! 0) = 0" "v \<le> 0"
  shows "getColormapColor points n v out = rgbOf (points ! 0)"
  using assms by (simp add: getColormapColor_def clamp01_def)

lemma getColormapColor_high:
  assumes "position (points ! 0) = 0" "position (points ! (n - 1)) = 1" "1 \<le> v"
  shows "getColormapColor points n v out = rgbOf (points ! (n - 1))"
  using assms by (simp add: getColormapColor_def clamp01_def)

lemmas colormap_tables =
  viridisMap_def plasmaMap_def infernoMap_def magmaMap_def hotMap_def coolMap_def jetMap_def
  turboMap_def oceanMap_def rainbowMap_def grayscaleMap_def iceMap_def fireMap_def
  seismicMap_def twilightMap_def cividisMap_def

lemma getCurrentColormapColor_low:
  assumes "v \<le> 0"
  shows "getCurrentColormapColor cm v out = rgbOf (hd (controlPoints cm))"
  by (cases cm) (simp_all add: getColormapColor_low [OF _ assms] colormap_tables pt_def)

lemma getCurrentColormapColor_high:
  assumes "1 \<le> v"
  shows "getCurrentColormapColor cm v out = rgbOf (last (controlPoints cm))"
  by (cases cm) (simp_all add: getColormapColor_high [OF _ _ assms] colormap_tables pt_def)

text \<open>
  C8. For each of the sixteen colormaps the color at value 0 is the color of the first
  control point and the color at value 1 that of the last one, and a value below 0 or
  above 1 gets the color of the first or of the last control point.
\<close>

theorem colormap_endpoints:
  "getCurrentColormapColor cm 0 out = rgbOf (hd (controlPoints cm)) \<and>
   getCurrentColormapColor cm 1 out = rgbOf (last (controlPoints cm)) \<and>
   (v < 0 \<longrightarrow> getCurrentColormapColor cm v out = rgbOf (hd (controlPoints cm))) \<and>
   (1 < v \<longrightarrow> getCurrentColormapColor cm v out = rgbOf (last (controlPoints cm)))"
  using getCurrentColormapColor_low [of 0 cm out] getCurrentColormapColor_high [of 1 cm out]
    getCurrentColormapColor_low [of v cm out] getCurrentColormapColor_high [of v cm out]
  by simp

theorem colormap_endpoints_witness:
  "(- 1 / 2 :: real) < 0 \<and> getCurrentColormapColor COLORMAP_JET (- 1 / 2) (9, 9, 9) = (0, 0, 1 / 2) \<and>
   (1 :: real) < 2 \<and> getCurrentColormapColor COLORMAP_JET 2 (9, 9, 9) = (1 / 2, 0, 0) \<and>
   getCurrentColormapColor COLORMAP_JET 0 (9, 9, 9) = (0, 0, 1 / 2) \<and>
   getCurrentColormapColor COLORMAP_JET 1 (9, 9, 9) = (1 / 2, 0, 0)"
proof -
  have lo: "(- 1 / 2 :: real) < 0" and hi: "(1 :: real) < 2" by simp_all
  have f: "rgbOf (hd (controlPoints COLORMAP_JET)) = (0, 0, 1 / 2)"
    and l: "rgbOf (last (controlPoints COLORMAP_JET)) = (1 / 2, 0, 0)"
    by (simp_all add: jetMap_def pt_def rgbOf_def)
  note t1 = colormap_endpoints [of COLORMAP_JET "(9, 9, 9)" "- 1 / 2"]
  note t2 = colormap_endpoints [of COLORMAP_JET "(9, 9, 9)" 2]
  from t1 lo have a: "getCurrentColormapColor COLORMAP_JET (- 1 / 2) (9, 9, 9) = (0, 0, 1 / 2)"
    unfolding f by blast
  from t2 hi have b: "getCurrentColormapColor COLORMAP_JET 2 (9, 9, 9) = (1 / 2, 0, 0)"
    unfolding l by blast
  from t1 have c: "getCurrentColormapColor COLORMAP_JET 0 (9, 9, 9) = (0, 0, 1 / 2)"
    unfolding f by blast
  from t1 have d: "getCurrentColormapColor COLORMAP_JET 1 (9, 9, 9) = (1 / 2, 0, 0)"
    unfolding l by blast
  from lo a hi b c d show ?thesis by blast
qed

subsection \<open>The line builder\<close>







subsection \<open>The frequency mapper\<close>

lemma barT_mono:
  assumes "2 \<le> nbars" "i \<le> j"
  shows "barT nbars i \<le> barT nbars j"
  using assms by (simp add: barT_def divide_right_mono)

lemma barT_strict:
  assumes "2 \<le> nbars" "i < j"
  shows "barT nbars i < barT nbars j"
  using assms by (simp add: barT_def divide_strict_right_mono)

lemma freqRatio_gt1: "1 < freqRatio rate"
proof -
  have "(20::real) < 20 * 1.001" by simp
  also have "\<dots> \<le> max (20 * 1.001) (real rate * 0.5)" by simp
  finally show ?thesis by (simp add: freqRatio_def MIN_FREQ_def)
qed

lemma barBinRaw_eq:
  "barBinRaw rate FFT_SIZE nbars i =
     20 * (freqRatio rate powr barT nbars i) * real_of_int FFT_SIZE / real rate"
  by (simp add: barBinRaw_def MIN_FREQ_def Let_def)

lemma barBinRaw_mono:
  assumes "2 \<le> nbars" "0 < rate" "i \<le> j" "0 \<le> FFT_SIZE"
  shows "barBinRaw rate FFT_SIZE nbars i \<le> barBinRaw rate FFT_SIZE nbars j"
proof -
  have "freqRatio rate powr barT nbars i \<le> freqRatio rate powr barT nbars j"
    using barT_mono [OF assms(1,3)] freqRatio_gt1 [of rate] by (intro powr_mono) simp_all
  then have "20 * (freqRatio rate powr barT nbars i) * real_of_int FFT_SIZE
      \<le> 20 * (freqRatio rate powr barT nbars j) * real_of_int FFT_SIZE"
    using assms(4) by (intro mult_right_mono) simp_all
  then show ?thesis
    unfolding barBinRaw_eq using assms(2) by (intro divide_right_mono) simp_all
qed

lemma barBinRaw_strict:
  assumes "2 \<le> nbars" "0 < rate" "i < j" "0 < FFT_SIZE"
  shows "barBinRaw rate FFT_SIZE nbars i < barBinRaw rate FFT_SIZE nbars j"
proof -
  have "freqRatio rate powr barT nbars i < freqRatio rate powr barT nbars j"
    using barT_strict [OF assms(1,3)] freqRatio_gt1 [of rate] by (intro powr_less_mono) simp_all
  then have "20 * (freqRatio rate powr barT nbars i) * real_of_int FFT_SIZE
      < 20 * (freqRatio rate powr barT nbars j) * real_of_int FFT_SIZE"
    using assms(4) by (intro mult_strict_right_mono) simp_all
  then show ?thesis
    unfolding barBinRaw_eq using assms(2) by (intro divide_strict_right_mono) simp_all
qed

lemma barBinRaw_sign:
  assumes "0 < rate"
  shows "0 < barBinRaw rate FFT_SIZE nbars i \<longleftrightarrow> 0 < FFT_SIZE"
proof -
  have p: "0 < 20 * (freqRatio rate powr barT nbars i)"
    using freqRatio_gt1 [of rate] by simp
  show ?thesis
    unfolding barBinRaw_eq using p assms
    by (simp add: zero_less_divide_iff zero_less_mult_iff del: mult_pos_pos)
qed


lemma gBarBinF_nth:
  assumes "i < nbars"
  shows "gBarBinF (buildFrequencyMapping rate FFT_SIZE nbars) ! i = barBinF rate FFT_SIZE nbars i"
  using assms by (simp add: buildFrequencyMapping_def)

lemma barBinF_mono:
  assumes "2 \<le> nbars" "0 < rate" "i \<le> j"
  shows "barBinF rate FFT_SIZE nbars i \<le> barBinF rate FFT_SIZE nbars j"
proof (cases "0 \<le> FFT_SIZE")
  case True
  have "barBinRaw rate FFT_SIZE nbars i \<le> barBinRaw rate FFT_SIZE nbars j"
    using assms True by (rule barBinRaw_mono)
  then show ?thesis by (auto simp: barBinF_def Let_def max_def min_def)
next
  case False
  then have neg: "barBinRaw rate FFT_SIZE nbars k \<le> 0" for k
    using barBinRaw_sign [OF assms(2), of FFT_SIZE nbars k] by simp
  have "barBinF rate FFT_SIZE nbars k = 1" for k
  proof -
    have "min (barBinRaw rate FFT_SIZE nbars k) (real_of_int (getNumFrequencies FFT_SIZE - 2))
        \<le> barBinRaw rate FFT_SIZE nbars k" by (rule min.cobounded1)
    also have "\<dots> \<le> 1" using neg [of k] by linarith
    finally show ?thesis by (simp add: barBinF_def Let_def max_absorb1)
  qed
  then show ?thesis by simp
qed

lemma barBinF_strict:
  assumes "2 \<le> nbars" "0 < rate" "i < j"
    and lo: "1 \<le> barBinRaw rate FFT_SIZE nbars i"
    and hi: "barBinRaw rate FFT_SIZE nbars j \<le> real_of_int (getNumFrequencies FFT_SIZE - 2)"
  shows "barBinF rate FFT_SIZE nbars i < barBinF rate FFT_SIZE nbars j"
proof -
  have "0 < barBinRaw rate FFT_SIZE nbars i" using lo by linarith
  then have "0 < FFT_SIZE" using barBinRaw_sign [OF assms(2)] by simp
  with assms(1-3) have lt: "barBinRaw rate FFT_SIZE nbars i < barBinRaw rate FFT_SIZE nbars j"
    by (rule barBinRaw_strict)
  have "barBinF rate FFT_SIZE nbars i = barBinRaw rate FFT_SIZE nbars i"
    using lo hi lt by (simp add: barBinF_def Let_def)
  moreover have "barBinF rate FFT_SIZE nbars j = barBinRaw rate FFT_SIZE nbars j"
    using lo hi lt by (simp add: barBinF_def Let_def)
  ultimately show ?thesis using lt by simp
qed

text \<open>
  C9. For at least two bars and a positive sample rate, and for every FFT size, the table
  entries \<^verbatim>\<open>gBarBinF\<close> do not decrease with the bar index; the ratio of the mapping
  is above 1; and between two bars whose values before the clamp lie in the clamp range
  (the lower one at least 1, the higher one at most the number of bins less 2) the entries
  increase strictly. Floating-point numbers are real numbers here.
\<close>

theorem frequency_map_monotone:
  assumes "2 \<le> nbars" and "0 < rate" and "i \<le> j" and "j < nbars"
  shows "gBarBinF (buildFrequencyMapping rate FFT_SIZE nbars) ! i
           \<le> gBarBinF (buildFrequencyMapping rate FFT_SIZE nbars) ! j \<and>
         1 < freqRatio rate \<and>
         (i < j \<and> 1 \<le> barBinRaw rate FFT_SIZE nbars i \<and>
          barBinRaw rate FFT_SIZE nbars j \<le> real_of_int (getNumFrequencies FFT_SIZE - 2) \<longrightarrow>
            gBarBinF (buildFrequencyMapping rate FFT_SIZE nbars) ! i
              < gBarBinF (buildFrequencyMapping rate FFT_SIZE nbars) ! j)"
proof -
  have i: "i < nbars" using assms(3,4) by simp
  show ?thesis
    unfolding gBarBinF_nth [OF i] gBarBinF_nth [OF assms(4)]
    using barBinF_mono [OF assms(1-3)] freqRatio_gt1 [of rate] barBinF_strict [OF assms(1,2)]
    by blast
qed

theorem frequency_map_monotone_witness:
  "(2 :: nat) \<le> 3 \<and> (0 :: nat) < 16000 \<and> (0 :: nat) \<le> 1 \<and> (1 :: nat) < 3 \<and>
   (0 :: nat) < 1 \<and> 1 \<le> barBinRaw 16000 4096 3 0 \<and>
   barBinRaw 16000 4096 3 1 \<le> real_of_int (getNumFrequencies 4096 - 2) \<and>
   gBarBinF (buildFrequencyMapping 16000 4096 3) ! 0 \<le> gBarBinF (buildFrequencyMapping 16000 4096 3) ! 1 \<and>
   gBarBinF (buildFrequencyMapping 16000 4096 3) ! 0 < gBarBinF (buildFrequencyMapping 16000 4096 3) ! 1"
proof -
  have h1: "(2 :: nat) \<le> 3" and h2: "(0 :: nat) < 16000" and h3: "(0 :: nat) \<le> 1"
    and h4: "(1 :: nat) < 3" and h5: "(0 :: nat) < 1"
    by simp_all
  have ratio: "freqRatio 16000 = 400"
    by (simp add: freqRatio_def MIN_FREQ_def)
  have "sqrt 400 = sqrt (20\<^sup>2)" by simp
  then have sq: "sqrt 400 = 20" by (simp only: real_sqrt_abs)
  have half: "(400 :: real) powr (1 / 2) = 20"
    using sq by (simp add: powr_half_sqrt)
  have r0: "barBinRaw 16000 4096 3 0 = 20 * 4096 / 16000"
    by (simp add: barBinRaw_def ratio barT_def MIN_FREQ_def)
  have r1: "barBinRaw 16000 4096 3 1 = 20 * 20 * 4096 / 16000"
    using half by (simp add: barBinRaw_def ratio barT_def MIN_FREQ_def)
  have nf: "getNumFrequencies 4096 = 2048"
    by (simp add: getNumFrequencies_def signed_divide_int_def)
  have h6: "1 \<le> barBinRaw 16000 4096 3 0" unfolding r0 by simp
  have h7: "barBinRaw 16000 4096 3 1 \<le> real_of_int (getNumFrequencies 4096 - 2)"
    unfolding r1 nf by simp
  note t = frequency_map_monotone [OF h1 h2 h3 h4, of 4096]
  from t have a: "gBarBinF (buildFrequencyMapping 16000 4096 3) ! 0
      \<le> gBarBinF (buildFrequencyMapping 16000 4096 3) ! 1" by blast
  from t h5 h6 h7 have b: "gBarBinF (buildFrequencyMapping 16000 4096 3) ! 0
      < gBarBinF (buildFrequencyMapping 16000 4096 3) ! 1" by blast
  from h1 h2 h3 h4 h5 h6 h7 a b show ?thesis by blast
qed

subsection \<open>The analysis window\<close>

lemma int32_id:
  assumes "- (2 ^ 31) \<le> k" "k < 2 ^ 31"
  shows "int32 k = k"
  using assms by (simp add: int32_def signed_take_bit_int_eq_self)

lemma uint_of_nat64:
  assumes "int n < 2 ^ 62"
  shows "uint (of_nat n :: 64 word) = int n"
proof -
  have "(of_nat n :: 64 word) = word_of_int (int n)" by simp
  moreover have "int n < 2 ^ 64"
  proof -
    have "(2::int) ^ 62 \<le> 2 ^ 64" by simp
    with assms show ?thesis by linarith
  qed
  ultimately show ?thesis using uint_small [of "int n"] by simp
qed

lemma playHeadEstimate_sint:
  fixes a :: "'a audio"
  assumes P: "uint (playbackPosition a) < 2 ^ 62"
    and F: "0 \<le> FFT_SIZE" "FFT_SIZE < 2 ^ 62"
    and La: "- (2 ^ 31) \<le> gLatencySamplesBase a + gLatencyAdjust a"
            "gLatencySamplesBase a + gLatencyAdjust a < 2 ^ 31"
  shows "sint (playHeadEstimate a FFT_SIZE) =
     uint (playbackPosition a) - (gLatencySamplesBase a + gLatencyAdjust a) - FFT_SIZE div 2"
proof -
  let ?La = "gLatencySamplesBase a + gLatencyAdjust a"
  let ?v = "uint (playbackPosition a) - ?La - FFT_SIZE div 2"
  have sd: "FFT_SIZE sdiv 2 = FFT_SIZE div 2"
    using F(1) by (simp add: signed_divide_int_def sgn_if)
  have "playHeadEstimate a FFT_SIZE =
      word_of_int (uint (playbackPosition a)) - word_of_int ?La - word_of_int (FFT_SIZE div 2)"
    by (simp add: playHeadEstimate_def int32_id [OF La] sd)
  also have "\<dots> = word_of_int ?v" by simp
  finally have e: "playHeadEstimate a FFT_SIZE = word_of_int ?v" .
  have h: "0 \<le> FFT_SIZE div 2" "FFT_SIZE div 2 < 2 ^ 62"
    using F by simp_all
  define p where "p = uint (playbackPosition a)"
  have p0: "0 \<le> p" "p < 2 ^ 62" using P by (simp_all add: p_def)
  have "- (2 ^ 63) \<le> p - ?La - FFT_SIZE div 2" "p - ?La - FFT_SIZE div 2 < 2 ^ 63"
    using p0 h La by simp_all
  then show ?thesis unfolding e p_def by (rule sint_small)
qed


lemma windowStart_uint:
  fixes a :: "'a audio"
  assumes ne: "audioData (wavFile a) \<noteq> []"
    and N: "int (length (audioData (wavFile a))) < 2 ^ 62"
    and P: "uint (playbackPosition a) \<le> int (length (audioData (wavFile a)))"
    and F: "0 \<le> FFT_SIZE" "FFT_SIZE \<le> int (length (audioData (wavFile a)))"
    and La: "- (2 ^ 31) \<le> gLatencySamplesBase a + gLatencyAdjust a"
            "gLatencySamplesBase a + gLatencyAdjust a < 2 ^ 31"
  shows "uint (windowStart a FFT_SIZE) =
     (uint (playbackPosition a) - (gLatencySamplesBase a + gLatencyAdjust a) - FFT_SIZE div 2)
       mod int (length (audioData (wavFile a)))"
proof -
  let ?N = "length (audioData (wavFile a))"
  have u: "uint (of_nat ?N :: 64 word) = int ?N" using N by (rule uint_of_nat64)
  have pos: "0 < int ?N" using ne by simp
  have nz: "(of_nat ?N :: 64 word) \<noteq> 0"
    using u pos by (simp add: word_uint_eq_iff)
  have lt: "uint (of_nat ?N :: 64 word) < 2 ^ 63"
  proof -
    have "(2::int) ^ 62 \<le> 2 ^ 63" by simp
    with N u show ?thesis by linarith
  qed
  have P': "uint (playbackPosition a) < 2 ^ 62" using P N by linarith
  have F': "FFT_SIZE < 2 ^ 62" using F(2) N by linarith
  show ?thesis
    unfolding windowStart_def
    by (simp only: wrapIndex_mod [OF nz lt] u playHeadEstimate_sint [OF P' F(1) F' La])
qed

lemma window_index:
  fixes start :: "64 word"
  assumes N: "int N < 2 ^ 62" and s: "uint start < int N" and i: "int i < int N"
  shows "unat ((start + of_nat i) mod (of_nat N :: 64 word)) = (nat (uint start) + i) mod N"
proof -
  define s where "s = uint start"
  have s0: "0 \<le> s" "s < int N" using s by (simp_all add: s_def)
  have u: "uint (of_nat N :: 64 word) = int N" using N by (rule uint_of_nat64)
  have "start + of_nat i = (word_of_int (s + int i) :: 64 word)"
    by (simp add: s_def)
  moreover have "uint (word_of_int (s + int i) :: 64 word) = s + int i"
  proof (rule uint_small)
    show "0 \<le> s + int i" using s0 by simp
    have "(2::int) ^ 62 + 2 ^ 62 \<le> 2 ^ 64" by simp
    then show "s + int i < 2 ^ 64" using s0 i N by linarith
  qed
  ultimately have "uint (start + of_nat i) = s + int i" by simp
  then have "uint ((start + of_nat i) mod (of_nat N :: 64 word)) = (s + int i) mod int N"
    by (simp add: uint_mod u)
  then have "unat ((start + of_nat i) mod (of_nat N :: 64 word)) = nat ((s + int i) mod int N)"
    by (simp add: unat_eq_nat_uint)
  also have "\<dots> = (nat s + i) mod N"
    using s0 by (simp add: nat_mod_distrib nat_add_distrib)
  finally show ?thesis by (simp add: s_def)
qed


lemma startAudio_latency:
  assumes "audioData (wavFile b) \<noteq> []" "\<not> audioStream b"
    and "- (2 ^ 31) \<le> outLatencySamples + FRAMES_PER_BUFFER"
        "outLatencySamples + FRAMES_PER_BUFFER < 2 ^ 31"
  shows "gLatencySamplesBase (startAudio (PaStarted outLatencySamples) b) =
           outLatencySamples + FRAMES_PER_BUFFER"
  using assms(1,2) by (simp add: startAudio_def int32_id [OF assms(3,4)])

text \<open>
  C1. Let \<open>N\<close> be the length of the sample buffer (not empty, below \<open>2 ^ 62\<close>), the
  clock position \<open>P\<close> inside the buffer, the FFT size \<open>F\<close> between 0 and \<open>N\<close>, and the
  latency sum \<open>La\<close> of \<^verbatim>\<open>gLatencySamplesBase\<close> and \<^verbatim>\<open>gLatencyAdjust\<close> an
  \<^verbatim>\<open>int\<close>. Then the start index of the analysis window is \<open>(P - La - F div 2) mod N\<close>,
  the analyzer feeds the transform with the \<open>F\<close> samples at the indices
  \<open>(start + i) mod N\<close>, each times its window weight, and \<^verbatim>\<open>startAudio\<close> sets
  \<^verbatim>\<open>gLatencySamplesBase\<close> to the reported latency in samples plus one buffer
  period.
\<close>

theorem latency_adjusted_sync:
  fixes a :: "real audio" and b :: "'b audio"
  assumes ne: "audioData (wavFile a) \<noteq> []"
    and N: "int (length (audioData (wavFile a))) < 2 ^ 62"
    and P: "uint (playbackPosition a) \<le> int (length (audioData (wavFile a)))"
    and F: "0 \<le> FFT_SIZE" "FFT_SIZE \<le> int (length (audioData (wavFile a)))"
    and La: "- (2 ^ 31) \<le> gLatencySamplesBase a + gLatencyAdjust a"
            "gLatencySamplesBase a + gLatencyAdjust a < 2 ^ 31"
  shows "uint (windowStart a FFT_SIZE) =
           (uint (playbackPosition a) - (gLatencySamplesBase a + gLatencyAdjust a) - FFT_SIZE div 2)
             mod int (length (audioData (wavFile a))) \<and>
         processAudioFrameSynced a FFT_SIZE =
           Some (map (\<lambda>i. audioData (wavFile a) !
                       ((nat ((uint (playbackPosition a) -
                               (gLatencySamplesBase a + gLatencyAdjust a) - FFT_SIZE div 2)
                              mod int (length (audioData (wavFile a)))) + i)
                         mod length (audioData (wavFile a))) * hann FFT_SIZE i)
                    [0..<nat FFT_SIZE]) \<and>
         (audioData (wavFile b) \<noteq> [] \<and> \<not> audioStream b \<and>
          - (2 ^ 31) \<le> outLatencySamples + FRAMES_PER_BUFFER \<and>
          outLatencySamples + FRAMES_PER_BUFFER < 2 ^ 31 \<longrightarrow>
            gLatencySamplesBase (startAudio (PaStarted outLatencySamples) b) =
              outLatencySamples + FRAMES_PER_BUFFER)"
proof (intro conjI impI)
  let ?N = "length (audioData (wavFile a))"
  let ?S = "(uint (playbackPosition a) - (gLatencySamplesBase a + gLatencyAdjust a) - FFT_SIZE div 2)
             mod int ?N"
  show st: "uint (windowStart a FFT_SIZE) = ?S"
    using ne N P F La by (rule windowStart_uint)
  have pos: "0 < int ?N" using ne by simp
  have S: "0 \<le> ?S" "?S < int ?N" using pos by simp_all
  have u: "uint (of_nat ?N :: 64 word) = int ?N" using N by (rule uint_of_nat64)
  have uF: "uint (word_of_int FFT_SIZE :: 64 word) = FFT_SIZE"
  proof (rule uint_small)
    show "0 \<le> FFT_SIZE" by (rule F(1))
    have "(2::int) ^ 62 \<le> 2 ^ 64" by simp
    then show "FFT_SIZE < 2 ^ 64" using F(2) N by linarith
  qed
  have br: "\<not> (of_nat ?N :: 64 word) < word_of_int FFT_SIZE"
    using F(2) by (simp add: word_less_def u uF)
  have idx: "unat ((windowStart a FFT_SIZE + of_nat i) mod (of_nat ?N :: 64 word)) =
      (nat ?S + i) mod ?N" if "i \<in> set [0..<nat FFT_SIZE]" for i
  proof -
    have i: "int i < int ?N" using that F by simp
    have w: "uint (windowStart a FFT_SIZE) < int ?N" using st S by simp
    show ?thesis unfolding window_index [OF N w i] st ..
  qed
  have "processAudioFrameSynced a FFT_SIZE =
      Some (map (\<lambda>i. audioData (wavFile a) !
                   unat ((windowStart a FFT_SIZE + of_nat i) mod (of_nat ?N :: 64 word)) *
                 hann FFT_SIZE i) [0..<nat FFT_SIZE])"
    using ne br by (simp add: processAudioFrameSynced_def Let_def)
  also have "map (\<lambda>i. audioData (wavFile a) !
                   unat ((windowStart a FFT_SIZE + of_nat i) mod (of_nat ?N :: 64 word)) *
                 hann FFT_SIZE i) [0..<nat FFT_SIZE] =
      map (\<lambda>i. audioData (wavFile a) ! ((nat ?S + i) mod ?N) * hann FFT_SIZE i) [0..<nat FFT_SIZE]"
    by (rule map_cong [OF refl]) (simp only: idx)
  finally show "processAudioFrameSynced a FFT_SIZE =
      Some (map (\<lambda>i. audioData (wavFile a) ! ((nat ?S + i) mod ?N) * hann FFT_SIZE i)
              [0..<nat FFT_SIZE])" .
next
  assume "audioData (wavFile b) \<noteq> [] \<and> \<not> audioStream b \<and>
          - (2 ^ 31) \<le> outLatencySamples + FRAMES_PER_BUFFER \<and>
          outLatencySamples + FRAMES_PER_BUFFER < 2 ^ 31"
  then show "gLatencySamplesBase (startAudio (PaStarted outLatencySamples) b) =
      outLatencySamples + FRAMES_PER_BUFFER"
    by (intro startAudio_latency) simp_all
qed

theorem latency_adjusted_sync_witness:
  "audioData (wavFile demoAnalysis) \<noteq> [] \<and>
   int (length (audioData (wavFile demoAnalysis))) < 2 ^ 62 \<and>
   uint (playbackPosition demoAnalysis) \<le> int (length (audioData (wavFile demoAnalysis))) \<and>
   (0 :: int) \<le> 4096 \<and> 4096 \<le> int (length (audioData (wavFile demoAnalysis))) \<and>
   - (2 ^ 31) \<le> gLatencySamplesBase demoAnalysis + gLatencyAdjust demoAnalysis \<and>
   gLatencySamplesBase demoAnalysis + gLatencyAdjust demoAnalysis < 2 ^ 31 \<and>
   uint (windowStart demoAnalysis 4096) = 8255 \<and>
   \<not> audioStream demoAnalysis \<and>
   gLatencySamplesBase (startAudio (PaStarted 441) demoAnalysis) = 697"
proof -
  have h1: "audioData (wavFile demoAnalysis) \<noteq> []" by (simp add: demoAnalysis_def)
  have len: "length (audioData (wavFile demoAnalysis)) = 10000" by (simp add: demoAnalysis_def)
  have h2: "int (length (audioData (wavFile demoAnalysis))) < 2 ^ 62" unfolding len by simp
  have h3: "uint (playbackPosition demoAnalysis) \<le> int (length (audioData (wavFile demoAnalysis)))"
    unfolding len by (simp add: demoAnalysis_def)
  have h4: "(0 :: int) \<le> 4096" by simp
  have h5: "4096 \<le> int (length (audioData (wavFile demoAnalysis)))" unfolding len by simp
  have h6: "- (2 ^ 31) \<le> gLatencySamplesBase demoAnalysis + gLatencyAdjust demoAnalysis"
    by (simp add: demoAnalysis_def)
  have h7: "gLatencySamplesBase demoAnalysis + gLatencyAdjust demoAnalysis < 2 ^ 31"
    by (simp add: demoAnalysis_def)
  have h8: "\<not> audioStream demoAnalysis" by (simp add: demoAnalysis_def)
  have h9: "- (2 ^ 31) \<le> 441 + FRAMES_PER_BUFFER \<and> 441 + FRAMES_PER_BUFFER < 2 ^ 31"
    by (simp add: FRAMES_PER_BUFFER_def)
  note t = latency_adjusted_sync [OF h1 h2 h3 h4 h5 h6 h7, of demoAnalysis 441]
  from t have "uint (windowStart demoAnalysis 4096) =
      (uint (playbackPosition demoAnalysis) -
        (gLatencySamplesBase demoAnalysis + gLatencyAdjust demoAnalysis) - 4096 div 2)
      mod int (length (audioData (wavFile demoAnalysis)))"
    by blast
  then have a: "uint (windowStart demoAnalysis 4096) = 8255"
    unfolding len by (simp add: demoAnalysis_def)
  from t h1 h8 h9 have "gLatencySamplesBase (startAudio (PaStarted 441) demoAnalysis) =
      441 + FRAMES_PER_BUFFER"
    by blast
  then have b: "gLatencySamplesBase (startAudio (PaStarted 441) demoAnalysis) = 697"
    by (simp add: FRAMES_PER_BUFFER_def)
  from h1 h2 h3 h4 h5 h6 h7 a h8 b show ?thesis by blast
qed

end
